theory Spec2Isabelle
  imports Complex_Main "HOL-Library.Log_Nat"
begin

section \<open>Python values used by the two programs\<close>

text \<open>
  Python integers are unbounded and are modelled by \<^typ>\<open>int\<close>. A Python \<open>float\<close> is an
  IEEE-754 binary64 number; a finite one is modelled by the rational number it denotes, and every
  floating-point operation is the exact operation followed by rounding to the nearest double,
  ties to even (\<open>round_double\<close>). ASCII-only strings are HOL strings. Strings that hold
  characters outside ASCII (the density bar) are lists of Unicode code points, which is what
  Python's \<open>str\<close> counts.
\<close>

datatype py_error = OverflowError | ZeroDivisionError

type_synonym pyfloat = rat

type_synonym pystr = "nat list"

definition round_half_even :: "rat \<Rightarrow> int" where
  "round_half_even y =
     (let f = \<lfloor>y\<rfloor>; r = y - of_int f
      in if r < 1 / 2 then f
         else if 1 / 2 < r then f + 1
         else if even f then f else f + 1)"

text \<open>The binary exponent of a positive rational: \<open>2 powi binade x \<le> x < 2 powi (binade x + 1)\<close>.\<close>

definition binade :: "rat \<Rightarrow> int" where
  "binade x = (if 1 \<le> x then bitlen \<lfloor>x\<rfloor> - 1 else - bitlen (\<lceil>1 / x\<rceil> - 1))"

text \<open>
  Rounding a positive rational to 53 significant bits; below \<open>2 powi - 1022\<close> the spacing
  stays that of the smallest normal binade (subnormal numbers).
\<close>

definition round_pos :: "rat \<Rightarrow> rat" where
  "round_pos x =
     (let e = max (binade x) (- 1022); u = 2 powi (e - 52)
      in of_int (round_half_even (x / u)) * u)"

definition round_double :: "rat \<Rightarrow> pyfloat" where
  "round_double x =
     (if x = 0 then 0 else if 0 < x then round_pos x else - round_pos (- x))"

text \<open>
  \<open>a / b\<close> on two Python integers: the correctly rounded quotient, \<open>ZeroDivisionError\<close> for a
  zero divisor and \<open>OverflowError\<close> when the rounded quotient is no finite double.
\<close>

definition int_truediv :: "int \<Rightarrow> int \<Rightarrow> py_error + pyfloat" where
  "int_truediv a b =
     (if b = 0 then Inl ZeroDivisionError
      else let r = round_double (of_int a / of_int b)
           in if 2 ^ 1024 \<le> \<bar>r\<bar> then Inl OverflowError else Inr r)"

text \<open>
  Product and difference of two floats. Both programs only form products and differences that
  stay far inside the range of finite doubles, so no infinity is modelled.
\<close>

definition float_mul :: "pyfloat \<Rightarrow> pyfloat \<Rightarrow> pyfloat" where
  "float_mul x y = round_double (x * y)"

definition float_sub :: "pyfloat \<Rightarrow> pyfloat \<Rightarrow> pyfloat" where
  "float_sub x y = round_double (x - y)"

text \<open>\<open>min(a, b)\<close> keeps its first argument unless the second is strictly smaller.\<close>

definition py_min :: "pyfloat \<Rightarrow> pyfloat \<Rightarrow> pyfloat" where
  "py_min a b = (if b < a then b else a)"

text \<open>\<open>int(x)\<close> on a float truncates towards zero.\<close>

definition int_of_float :: "pyfloat \<Rightarrow> int" where
  "int_of_float x = (if 0 \<le> x then \<lfloor>x\<rfloor> else \<lceil>x\<rceil>)"

definition ascii :: "string \<Rightarrow> pystr" where
  "ascii s = map of_char s"

text \<open>\<open>s * n\<close> on a string: \<open>n\<close> copies, none when \<open>n\<close> is not positive.\<close>

definition str_repeat :: "pystr \<Rightarrow> int \<Rightarrow> pystr" where
  "str_repeat s n = concat (replicate (nat n) s)"

function digits10 :: "nat \<Rightarrow> pystr" where
  "digits10 n = (if n < 10 then [48 + n] else digits10 (n div 10) @ [48 + n mod 10])"
  by pat_completeness auto
termination
  by (relation "measure id") auto

text \<open>\<open>str(n)\<close>, which is what an f-string substitutes for an integer.\<close>

definition str_int :: "int \<Rightarrow> pystr" where
  "str_int n = (if n < 0 then 45 # digits10 (nat (- n)) else digits10 (nat n))"


section \<open>pi_stream.py: the streaming script\<close>

text \<open>
  The module-level settings \<open>WARNING_LIMIT\<close>, \<open>CRITICAL_LIMIT\<close> and \<open>BUFFER_SIZE\<close> are the
  fields of a configuration; \<open>pi_stream_config\<close> holds the values the script assigns.
\<close>

record config =
  WARNING_LIMIT :: int
  CRITICAL_LIMIT :: int
  BUFFER_SIZE :: int

definition FPS_LIMIT :: int where
  "FPS_LIMIT = 15"

definition REQUIRED_SECONDS :: pyfloat where
  "REQUIRED_SECONDS = 3"

definition pi_stream_config :: config where
  "pi_stream_config =
     \<lparr>WARNING_LIMIT = 30, CRITICAL_LIMIT = 50,
      BUFFER_SIZE = int_of_float (float_mul (of_int FPS_LIMIT) REQUIRED_SECONDS)\<rparr>"

text \<open>The two global variables of the script.\<close>

record alarm_state =
  consecutive_critical_frames :: int
  last_alert_time :: pyfloat

definition initial_state :: alarm_state where
  "initial_state = \<lparr>consecutive_critical_frames = 0, last_alert_time = 0\<rparr>"

text \<open>
  What one iteration of the main loop takes from outside: the number of persons the detector
  found in the frame, and the two readings of \<open>time.time()\<close>, the one compared with
  \<open>last_alert_time\<close> and the one stored into it. The second reading is only made when an alert
  is printed.
\<close>

record observation =
  total_persons :: int
  clock_check :: pyfloat
  clock_set :: pyfloat

text \<open>
  What the iteration produces: the status text and its colour for the dashboard, and the alert
  line printed to the console, given by the count it reports.
\<close>

record frame_result =
  display_status :: string
  status_color :: "nat \<times> nat \<times> nat"
  alert :: "int option"

text \<open>Steps 3 and "Determine Status" of the main loop.\<close>

definition debouncer_step ::
  "config \<Rightarrow> observation \<Rightarrow> 'a alarm_state_scheme \<Rightarrow> frame_result \<times> 'a alarm_state_scheme" where
  "debouncer_step cfg ob s =
     (let n = total_persons ob;
          c = (if CRITICAL_LIMIT cfg < n then consecutive_critical_frames s + 1 else 0);
          s1 = s\<lparr>consecutive_critical_frames := c\<rparr>
      in if BUFFER_SIZE cfg < c then
           (if 5 < float_sub (clock_check ob) (last_alert_time s1)
            then (\<lparr>display_status = ''CRITICAL RISK'', status_color = (0, 0, 255),
                   alert = Some n\<rparr>,
                  s1\<lparr>last_alert_time := clock_set ob\<rparr>)
            else (\<lparr>display_status = ''CRITICAL RISK'', status_color = (0, 0, 255),
                   alert = None\<rparr>, s1))
         else if WARNING_LIMIT cfg < n then
           (\<lparr>display_status = ''High Density'', status_color = (0, 165, 255), alert = None\<rparr>, s1)
         else
           (\<lparr>display_status = ''Normal'', status_color = (0, 255, 0), alert = None\<rparr>, s1))"

text \<open>The main loop over the frames the camera delivers: the results, frame by frame.\<close>

fun main_loop ::
  "config \<Rightarrow> 'a alarm_state_scheme \<Rightarrow> observation list \<Rightarrow> frame_result list" where
  "main_loop cfg s [] = []"
| "main_loop cfg s (ob # obs) =
     (case debouncer_step cfg ob s of (r, s') \<Rightarrow> r # main_loop cfg s' obs)"

text \<open>The global variables after the loop has processed the given frames.\<close>

fun state_after ::
  "config \<Rightarrow> 'a alarm_state_scheme \<Rightarrow> observation list \<Rightarrow> 'a alarm_state_scheme" where
  "state_after cfg s [] = s"
| "state_after cfg s (ob # obs) = state_after cfg (snd (debouncer_step cfg ob s)) obs"

text \<open>
  The readings of the clock in the order the loop makes them; a clock that never runs backwards
  gives a sorted list. On a frame that prints no alert the second reading is not made, and any
  value between the neighbouring readings may stand for it.
\<close>

definition clock_readings :: "observation list \<Rightarrow> pyfloat list" where
  "clock_readings obs = concat (map (\<lambda>ob. [clock_check ob, clock_set ob]) obs)"


text \<open>
  The step as the specification words it (section 4.1): a function of the count, the state, given
  by its two fields, and the current time, that returns the risk status, whether an alert is
  emitted and the new \<open>consecutive_high_count\<close>. The thresholds and the persistence window are
  those of the configuration, the cooldown is the 5 seconds of the script.
  \<open>text_of_status\<close> gives the text under which the script shows a risk status.
\<close>

datatype risk_status = Normal | Warning | Critical

definition text_of_status :: "risk_status \<Rightarrow> string" where
  "text_of_status st =
     (case st of Normal \<Rightarrow> ''Normal'' | Warning \<Rightarrow> ''High Density''
      | Critical \<Rightarrow> ''CRITICAL RISK'')"

definition spec_step ::
  "config \<Rightarrow> int \<Rightarrow> pyfloat \<Rightarrow> int \<times> pyfloat \<Rightarrow> risk_status \<times> bool \<times> int" where
  "spec_step cfg count now st =
     (let consecutive_high_count =
            (if CRITICAL_LIMIT cfg < count then fst st + 1 else 0);
          status =
            (if BUFFER_SIZE cfg < consecutive_high_count then Critical
             else if WARNING_LIMIT cfg < count then Warning else Normal);
          emit = (status = Critical \<and> 5 < float_sub now (snd st))
      in (status, emit, consecutive_high_count))"

section \<open>app.py: the dashboard\<close>

definition create_density_bar :: "int \<Rightarrow> py_error + pystr" where
  "create_density_bar count =
     (let max_capacity = 100
      in case int_truediv count max_capacity of
           Inl e \<Rightarrow> Inl e
         | Inr q \<Rightarrow>
             (let percentage = py_min q 1;
                  bar_length = 10;
                  filled = int_of_float (float_mul (of_int bar_length) percentage);
                  bar = str_repeat [0x2588] filled @ str_repeat [0x2591] (bar_length - filled)
              in Inr (str_int count @ ascii '' People detected &nbsp; '' @ bar)))"

text \<open>
  The loop over the detector's boxes in \<open>process_frame\<close>: every box raises the count and is
  drawn in the colour the running count selects.
\<close>

definition box_color :: "int \<Rightarrow> nat \<times> nat \<times> nat" where
  "box_color persons =
     (if 25 < persons then (0, 0, 255)
      else if 20 < persons then (0, 165, 255)
      else (0, 255, 0))"

fun draw_boxes :: "int \<Rightarrow> 'b list \<Rightarrow> int \<times> ('b \<times> nat \<times> nat \<times> nat) list" where
  "draw_boxes persons [] = (persons, [])"
| "draw_boxes persons (box # boxes) =
     (case draw_boxes (persons + 1) boxes of
        (n, drawn) \<Rightarrow> (n, (box, box_color (persons + 1)) # drawn))"

text \<open>
  \<open>process_frame\<close>, given the boxes the detector returns for the frame: the drawn overlay, the
  count, the status text and the CSS class.
\<close>

definition process_frame ::
  "'b list \<Rightarrow> ('b \<times> nat \<times> nat \<times> nat) list \<times> int \<times> string \<times> string" where
  "process_frame boxes =
     (case draw_boxes 0 boxes of
        (persons, drawn) \<Rightarrow>
          if 25 < persons then (drawn, persons, ''CRITICAL RISK'', ''status-critical'')
          else if 20 < persons then (drawn, persons, ''High Density'', ''status-warning'')
          else (drawn, persons, ''Normal'', ''status-normal''))"

text \<open>
  The local variables of \<open>show_live\<close> and \<open>show_analysis\<close> that the loop carries along.
  The fields \<open>shown_status\<close>, \<open>shown_density\<close> and \<open>shown_css\<close> are the variables
  \<open>display_status\<close>, \<open>display_density\<close> and \<open>display_css\<close>; the first of these names is
  taken by the status of \<open>pi_stream.py\<close>. The two functions differ only in what they do when
  the capture ends, so one loop stands for both.
\<close>

record ui_state =
  frame_count :: int
  shown_status :: string
  shown_density :: pystr
  shown_css :: string

definition ui_initial :: ui_state where
  "ui_initial =
     \<lparr>frame_count = 0, shown_status = ''Initializing...'',
      shown_density = ascii ''0 People '' @ replicate 10 0x2591,
      shown_css = ''status-normal''\<rparr>"

text \<open>One iteration of the display loop, up to the values it renders.\<close>

definition loop_body :: "'b list \<Rightarrow> ui_state \<Rightarrow> py_error + ui_state" where
  "loop_body boxes st =
     (case process_frame boxes of
        (processed_frame, count, status, css) \<Rightarrow>
          (let fc = frame_count st + 1
           in if fc mod 10 = 0 then
                (case create_density_bar count of
                   Inl e \<Rightarrow> Inl e
                 | Inr d \<Rightarrow>
                     Inr \<lparr>frame_count = fc, shown_status = status, shown_density = d,
                          shown_css = css\<rparr>)
              else Inr (st\<lparr>frame_count := fc\<rparr>)))"

text \<open>
  The display loop over the frames read from the capture: the values rendered after each frame
  and, when an iteration raises, the exception that ends the loop.
\<close>

fun show_loop :: "ui_state \<Rightarrow> 'b list list \<Rightarrow> ui_state list \<times> py_error option" where
  "show_loop st [] = ([], None)"
| "show_loop st (boxes # rest) =
     (case loop_body boxes st of
        Inl e \<Rightarrow> ([], Some e)
      | Inr st' \<Rightarrow> (case show_loop st' rest of (rendered, e) \<Rightarrow> (st' # rendered, e)))"


text \<open>The three values the dashboard shows.\<close>

definition shown :: "ui_state \<Rightarrow> string \<times> pystr \<times> string" where
  "shown st = (shown_status st, shown_density st, shown_css st)"


section \<open>Configurations and frames used in the examples\<close>

text \<open>The thresholds and the persistence window of the worked scenario.\<close>

definition scenario_config :: config where
  "scenario_config = \<lparr>WARNING_LIMIT = 20, CRITICAL_LIMIT = 25, BUFFER_SIZE = 3\<rparr>"

text \<open>A frame with \<open>n\<close> persons whose clock readings both are \<open>t\<close>.\<close>

definition frame_at :: "int \<Rightarrow> pyfloat \<Rightarrow> observation" where
  "frame_at n t = \<lparr>total_persons = n, clock_check = t, clock_set = t\<rparr>"


section \<open>Rounding to the nearest double\<close>

lemma powi_nat: "0 \<le> k \<Longrightarrow> (2::rat) powi k = 2 ^ nat k"
  by (simp add: power_int_def)

lemma binade_ge1:
  assumes "1 \<le> x"
  shows "2 powi binade x \<le> x \<and> x < 2 powi (binade x + 1)"
proof -
  let ?n = "\<lfloor>x\<rfloor>"
  have n: "0 < ?n" using assms by simp
  have b1: "1 \<le> bitlen ?n" using n by (simp add: bitlen_alt_def)
  from bitlen_bounds [OF n]
  have lo: "2 ^ nat (bitlen ?n - 1) \<le> ?n" and hi: "?n < 2 ^ nat (bitlen ?n)" by auto
  have "(2::rat) powi (bitlen ?n - 1) = of_int (2 ^ nat (bitlen ?n - 1))"
    using b1 by (simp add: powi_nat)
  also have "\<dots> \<le> of_int ?n" using lo by (simp only: of_int_le_iff)
  also have "\<dots> \<le> x" by simp
  finally have A: "2 powi (bitlen ?n - 1) \<le> x" .
  have "?n + 1 \<le> 2 ^ nat (bitlen ?n)" using hi by simp
  then have "(of_int (?n + 1) :: rat) \<le> of_int (2 ^ nat (bitlen ?n))"
    by (simp only: of_int_le_iff)
  moreover have "x < of_int (?n + 1)" by linarith
  ultimately have "x < of_int (2 ^ nat (bitlen ?n))" by linarith
  also have "\<dots> = 2 powi (bitlen ?n)" using b1 by (simp add: powi_nat)
  finally have B: "x < 2 powi (bitlen ?n)" .
  show ?thesis using A B assms by (simp add: binade_def)
qed

lemma binade_lt1:
  assumes "0 < x" "x < 1"
  shows "2 powi binade x \<le> x \<and> x < 2 powi (binade x + 1)"
proof -
  define m where "m = \<lceil>1 / x\<rceil> - 1"
  define L where "L = bitlen m"
  have inv: "1 < 1 / x" using assms by simp
  then have m: "0 < m" unfolding m_def by linarith
  have L1: "1 \<le> L" using m by (simp add: bitlen_alt_def L_def)
  from bitlen_bounds [OF m]
  have lo: "2 ^ nat (L - 1) \<le> m" and hi: "m < 2 ^ nat L" by (auto simp: L_def)
  have up: "1 / x \<le> of_int m + 1" unfolding m_def by simp
  have dn: "of_int m < 1 / x" unfolding m_def by linarith
  have "m + 1 \<le> 2 ^ nat L" using hi by simp
  then have "(of_int (m + 1) :: rat) \<le> of_int (2 ^ nat L)" by (simp only: of_int_le_iff)
  then have "(of_int m :: rat) + 1 \<le> 2 ^ nat L" by simp
  with up have "1 / x \<le> 2 ^ nat L" by linarith
  then have "1 \<le> x * 2 ^ nat L" using assms(1) by (simp add: field_simps)
  then have "1 / 2 ^ nat L \<le> x" by (simp add: field_simps)
  moreover have "(2::rat) powi (- L) = 1 / 2 ^ nat L"
    using L1 by (simp add: power_int_def field_simps)
  ultimately have A: "2 powi (- L) \<le> x" by simp
  have "(of_int (2 ^ nat (L - 1)) :: rat) \<le> of_int m" using lo by (simp only: of_int_le_iff)
  then have "(2::rat) ^ nat (L - 1) \<le> of_int m" by simp
  with dn have "2 ^ nat (L - 1) < 1 / x" by linarith
  then have "x * 2 ^ nat (L - 1) < 1" using assms(1) by (simp add: field_simps)
  then have "x < 1 / 2 ^ nat (L - 1)" by (simp add: field_simps)
  moreover have "(2::rat) powi (- L + 1) = 1 / 2 ^ nat (L - 1)"
  proof (cases "L = 1")
    case True then show ?thesis by simp
  next
    case False
    with L1 have "- L + 1 < 0" by simp
    then have "(2::rat) powi (- L + 1) = inverse 2 ^ nat (L - 1)"
      by (simp add: power_int_def)
    then show ?thesis by (simp add: field_simps)
  qed
  ultimately have B: "x < 2 powi (- L + 1)" by simp
  have "binade x = - L" using assms by (simp add: binade_def L_def m_def)
  then show ?thesis using A B by simp
qed

lemma binade_correct:
  "0 < x \<Longrightarrow> 2 powi binade x \<le> x \<and> x < 2 powi (binade x + 1)"
  using binade_ge1 [of x] binade_lt1 [of x] by (cases "1 \<le> x") auto

lemma rhe_cases:
  "round_half_even y = \<lfloor>y\<rfloor> \<or> round_half_even y = \<lfloor>y\<rfloor> + 1"
  by (simp add: round_half_even_def Let_def)

lemma rhe_of_int: "round_half_even (of_int n) = n"
  by (simp add: round_half_even_def Let_def)

lemma rhe_lower: "y - of_int (round_half_even y) \<le> 1 / 2"
  by (simp add: round_half_even_def Let_def) linarith

lemma rhe_upper: "of_int (round_half_even y) - y \<le> 1 / 2"
  by (simp add: round_half_even_def Let_def) linarith

lemma rhe_mono:
  assumes "x \<le> y"
  shows "round_half_even x \<le> round_half_even y"
proof (cases "\<lfloor>x\<rfloor> = \<lfloor>y\<rfloor>")
  case True
  then show ?thesis
    using assms by (auto simp add: round_half_even_def Let_def)
next
  case False
  with assms have "\<lfloor>x\<rfloor> + 1 \<le> \<lfloor>y\<rfloor>"
    using floor_mono [OF assms] by linarith
  moreover have "round_half_even x \<le> \<lfloor>x\<rfloor> + 1" using rhe_cases [of x] by auto
  moreover have "\<lfloor>y\<rfloor> \<le> round_half_even y" using rhe_cases [of y] by auto
  ultimately show ?thesis by linarith
qed

lemma rhe_le_int: "y \<le> of_int n \<Longrightarrow> round_half_even y \<le> n"
  using rhe_mono [of y "of_int n"] by (simp add: rhe_of_int)

lemma int_le_rhe: "of_int n \<le> y \<Longrightarrow> n \<le> round_half_even y"
  using rhe_mono [of "of_int n" y] by (simp add: rhe_of_int)

lemma rhe_below_half:
  assumes "y < of_int n - 1 / 2"
  shows "round_half_even y \<le> n - 1"
proof -
  have "\<lfloor>y\<rfloor> \<le> n - 1" using assms by linarith
  then consider "\<lfloor>y\<rfloor> = n - 1" | "\<lfloor>y\<rfloor> + 1 \<le> n - 1" by linarith
  then show ?thesis
  proof cases
    case 1
    then have "y - of_int \<lfloor>y\<rfloor> < 1 / 2" using assms by simp
    then have "round_half_even y = \<lfloor>y\<rfloor>" by (simp add: round_half_even_def Let_def)
    with 1 show ?thesis by simp
  next
    case 2
    then show ?thesis using rhe_cases [of y] by auto
  qed
qed

lemma powi_pos: "0 < (2::rat) powi k"
  by simp

lemma powi_split: "(2::rat) powi (a + b) = 2 powi a * 2 powi b"
  by (simp add: power_int_add)

lemma powi_le: "a \<le> b \<Longrightarrow> (2::rat) powi a \<le> 2 powi b"
  by (simp add: power_int_increasing)

lemma scale53: "(2::rat) ^ 53 * 2 powi (e - 52) = 2 powi (e + 1)"
  using powi_split [of 53 "e - 52"] by (simp add: ac_simps)

lemma scale52: "(2::rat) ^ 52 * 2 powi (e - 52) = 2 powi e"
  using powi_split [of 52 "e - 52"] by simp

lemma round_pos_nonneg:
  assumes "0 < x"
  shows "0 \<le> round_pos x"
proof -
  have "0 \<le> x / 2 powi (max (binade x) (- 1022) - 52)" using assms by simp
  then have "0 \<le> round_half_even (x / 2 powi (max (binade x) (- 1022) - 52))"
    using int_le_rhe [of 0] by simp
  then show ?thesis by (simp add: round_pos_def Let_def)
qed

lemma round_pos_upper:
  assumes "0 < x"
  shows "round_pos x \<le> 2 powi (max (binade x) (- 1022) + 1)"
proof -
  define e where "e = max (binade x) (- 1022)"
  define u :: rat where "u = 2 powi (e - 52)"
  have u: "0 < u" by (simp add: u_def)
  have "x < 2 powi (binade x + 1)" using binade_correct [OF assms] by simp
  also have "\<dots> \<le> 2 powi (e + 1)" by (rule powi_le) (simp add: e_def)
  also have "\<dots> = 2 ^ 53 * u" unfolding u_def by (simp only: scale53)
  finally have "x / u \<le> 2 ^ 53" using u by (simp add: field_simps)
  then have "x / u \<le> of_int (2 ^ 53)" by simp
  then have "round_half_even (x / u) \<le> 2 ^ 53" by (rule rhe_le_int)
  then have "(of_int (round_half_even (x / u)) :: rat) \<le> of_int (2 ^ 53)"
    by (simp only: of_int_le_iff)
  then have "of_int (round_half_even (x / u)) * u \<le> 2 ^ 53 * u"
    using u by simp
  also have "\<dots> = 2 powi (e + 1)" unfolding u_def by (simp only: scale53)
  finally show ?thesis by (simp add: round_pos_def Let_def e_def u_def)
qed

lemma round_pos_lower:
  assumes "0 < x" "- 1022 \<le> binade x"
  shows "2 powi binade x \<le> round_pos x"
proof -
  define e where "e = binade x"
  define u :: rat where "u = 2 powi (e - 52)"
  have u: "0 < u" by (simp add: u_def)
  have "2 ^ 52 * u = 2 powi e" unfolding u_def by (simp only: scale52)
  also have "\<dots> \<le> x" using binade_correct [OF assms(1)] by (simp add: e_def)
  finally have "of_int (2 ^ 52) \<le> x / u" using u by (simp add: field_simps)
  then have "2 ^ 52 \<le> round_half_even (x / u)" by (rule int_le_rhe)
  then have "(of_int (2 ^ 52) :: rat) \<le> of_int (round_half_even (x / u))"
    by (simp only: of_int_le_iff)
  then have "2 ^ 52 * u \<le> of_int (round_half_even (x / u)) * u"
    using u by simp
  moreover have "2 ^ 52 * u = 2 powi e" unfolding u_def by (simp only: scale52)
  ultimately have "2 powi e \<le> of_int (round_half_even (x / u)) * u" by simp
  moreover have "round_pos x = of_int (round_half_even (x / u)) * u"
    using assms(2) by (simp add: round_pos_def Let_def e_def u_def max_def)
  ultimately show ?thesis by (simp add: e_def)
qed

lemma binade_mono:
  assumes "0 < x" "x \<le> y"
  shows "binade x \<le> binade y"
proof -
  have "2 powi binade x \<le> x" using binade_correct [OF assms(1)] by simp
  also have "x \<le> y" by fact
  also have "y < 2 powi (binade y + 1)" using binade_correct [of y] assms by simp
  finally have "(2::rat) powi binade x < 2 powi (binade y + 1)" .
  then have "binade x < binade y + 1"
    by (metis linorder_not_less powi_le)
  then show ?thesis by simp
qed

lemma round_pos_mono:
  assumes "0 < x" "x \<le> y"
  shows "round_pos x \<le> round_pos y"
proof -
  define ex where "ex = max (binade x) (- 1022)"
  define ey where "ey = max (binade y) (- 1022)"
  have y: "0 < y" using assms by simp
  have le: "ex \<le> ey" using binade_mono [OF assms] by (simp add: ex_def ey_def)
  show ?thesis
  proof (cases "ex = ey")
    case True
    define u :: rat where "u = 2 powi (ex - 52)"
    have u: "0 < u" by (simp add: u_def)
    have "x / u \<le> y / u" using assms u by (simp add: divide_right_mono)
    then have "round_half_even (x / u) \<le> round_half_even (y / u)" by (rule rhe_mono)
    then have "(of_int (round_half_even (x / u)) :: rat) \<le> of_int (round_half_even (y / u))"
      by (simp only: of_int_le_iff)
    then have "of_int (round_half_even (x / u)) * u \<le> of_int (round_half_even (y / u)) * u"
      using u by simp
    then show ?thesis using True by (simp add: round_pos_def Let_def ex_def ey_def u_def)
  next
    case False
    with le have lt: "ex + 1 \<le> ey" by simp
    then have "- 1022 < ey" by (simp add: ex_def)
    then have biny: "binade y = ey" "- 1022 \<le> binade y" by (auto simp: ey_def)
    have "round_pos x \<le> 2 powi (ex + 1)" using round_pos_upper [OF assms(1)] by (simp add: ex_def)
    also have "\<dots> \<le> 2 powi ey" using lt by (rule powi_le)
    also have "\<dots> \<le> round_pos y" using round_pos_lower [OF y biny(2)] by (simp add: biny(1))
    finally show ?thesis .
  qed
qed

lemma round_double_mono:
  assumes "x \<le> y"
  shows "round_double x \<le> round_double y"
proof -
  consider "0 < x" | "x = 0" | "x < 0" "y < 0" | "x < 0" "y = 0" | "x < 0" "0 < y"
    using assms by linarith
  then show ?thesis
  proof cases
    case 1
    then show ?thesis using assms round_pos_mono [of x y] by (simp add: round_double_def)
  next
    case 2
    then show ?thesis using assms round_pos_nonneg [of y] by (auto simp add: round_double_def)
  next
    case 3
    then show ?thesis using assms round_pos_mono [of "- y" "- x"] by (simp add: round_double_def)
  next
    case 4
    then show ?thesis using round_pos_nonneg [of "- x"] by (simp add: round_double_def)
  next
    case 5
    then show ?thesis using round_pos_nonneg [of "- x"] round_pos_nonneg [of y]
      by (simp add: round_double_def)
  qed
qed

lemma round_double_1: "round_double 1 = 1"
  by code_simp

lemma round_double_5: "round_double 5 = 5"
  by code_simp

lemma round_pos_finite:
  assumes "0 < x" "x < 2 ^ 1024 - 2 ^ 970"
  shows "round_pos x < 2 ^ 1024"
proof -
  have "2 powi binade x \<le> x" using binade_correct [OF assms(1)] by simp
  also have "x < 2 powi 1024" using assms(2) by simp
  finally have "binade x < 1024" by (metis linorder_not_less powi_le)
  then consider "binade x = 1023" | "binade x \<le> 1022" by linarith
  then show ?thesis
  proof cases
    case 1
    define u :: rat where "u = 2 powi 971"
    have u: "0 < u" by (simp add: u_def)
    have "(2 ^ 1024 - 2 ^ 970 :: rat) = (2 ^ 53 - 1 / 2) * u" by (simp add: u_def)
    with assms(2) have "x / u < 2 ^ 53 - 1 / 2" using u by (simp add: field_simps)
    then have "x / u < of_int (2 ^ 53) - 1 / 2" by simp
    then have "round_half_even (x / u) \<le> 2 ^ 53 - 1" by (rule rhe_below_half)
    then have "(of_int (round_half_even (x / u)) :: rat) \<le> of_int (2 ^ 53 - 1)"
      by (simp only: of_int_le_iff)
    then have "of_int (round_half_even (x / u)) * u \<le> of_int (2 ^ 53 - 1) * u"
      using u by simp
    also have "\<dots> < 2 ^ 1024" by (simp add: u_def)
    finally show ?thesis using 1 by (simp add: round_pos_def Let_def u_def)
  next
    case 2
    have "round_pos x \<le> 2 powi (max (binade x) (- 1022) + 1)" by (rule round_pos_upper [OF assms(1)])
    also have "\<dots> \<le> 2 powi 1023" using 2 by (intro powi_le) simp
    also have "\<dots> < 2 ^ 1024" by simp
    finally show ?thesis .
  qed
qed


section \<open>The debouncer of pi_stream.py\<close>

lemma length_main_loop: "length (main_loop cfg s obs) = length obs"
  by (induction obs arbitrary: s) (auto split: prod.splits)

lemma state_after_take_Suc:
  "i < length obs \<Longrightarrow>
   state_after cfg s (take (Suc i) obs) =
   snd (debouncer_step cfg (obs ! i) (state_after cfg s (take i obs)))"
proof (induction obs arbitrary: s i)
  case Nil
  then show ?case by simp
next
  case (Cons ob obs)
  then show ?case by (cases i) simp_all
qed

lemma main_loop_nth:
  "i < length obs \<Longrightarrow>
   main_loop cfg s obs ! i = fst (debouncer_step cfg (obs ! i) (state_after cfg s (take i obs)))"
proof (induction obs arbitrary: s i)
  case Nil
  then show ?case by simp
next
  case (Cons ob obs)
  then show ?case by (cases i) (simp_all split: prod.splits)
qed

lemma step_counter:
  "consecutive_critical_frames (snd (debouncer_step cfg ob s)) =
   (if CRITICAL_LIMIT cfg < total_persons ob then consecutive_critical_frames s + 1 else 0)"
  by (simp add: debouncer_step_def Let_def)

lemma step_last_alert:
  "last_alert_time (snd (debouncer_step cfg ob s)) =
   (if alert (fst (debouncer_step cfg ob s)) = None then last_alert_time s else clock_set ob)"
  by (simp add: debouncer_step_def Let_def)

lemma step_status:
  "display_status (fst (debouncer_step cfg ob s)) =
   (if BUFFER_SIZE cfg < consecutive_critical_frames (snd (debouncer_step cfg ob s))
    then ''CRITICAL RISK''
    else if WARNING_LIMIT cfg < total_persons ob then ''High Density'' else ''Normal'')"
  by (simp add: debouncer_step_def Let_def)

lemma step_alert:
  "alert (fst (debouncer_step cfg ob s)) =
   (if BUFFER_SIZE cfg < consecutive_critical_frames (snd (debouncer_step cfg ob s)) \<and>
       5 < float_sub (clock_check ob) (last_alert_time s)
    then Some (total_persons ob) else None)"
  by (simp add: debouncer_step_def Let_def)

lemma critical_iff:
  "display_status (fst (debouncer_step cfg ob s)) = ''CRITICAL RISK'' \<longleftrightarrow>
   BUFFER_SIZE cfg < consecutive_critical_frames (snd (debouncer_step cfg ob s))"
  by (simp add: step_status)

lemma streak:
  "i < length obs \<Longrightarrow> k \<le> i \<Longrightarrow>
   int k < consecutive_critical_frames (state_after cfg s (take (Suc i) obs)) \<Longrightarrow>
   \<forall>j\<le>k. CRITICAL_LIMIT cfg < total_persons (obs ! (i - j))"
proof (induction k arbitrary: i)
  case 0
  then show ?case
    by (simp add: state_after_take_Suc step_counter split: if_splits)
next
  case (Suc k)
  from Suc.prems(2) obtain i' where i: "i = Suc i'" by (cases i) auto
  from Suc.prems(3) have q: "CRITICAL_LIMIT cfg < total_persons (obs ! i)"
    and c: "int k < consecutive_critical_frames (state_after cfg s (take i obs))"
    using Suc.prems(1) by (auto simp add: state_after_take_Suc step_counter split: if_splits)
  have earlier: "\<forall>j\<le>k. CRITICAL_LIMIT cfg < total_persons (obs ! (i' - j))"
    using Suc.IH [of i'] Suc.prems(1,2) c i by simp
  show ?case
  proof (intro allI impI)
    fix j
    assume j: "j \<le> Suc k"
    show "CRITICAL_LIMIT cfg < total_persons (obs ! (i - j))"
    proof (cases j)
      case 0
      then show ?thesis using q by simp
    next
      case (Suc j')
      with j have "j' \<le> k" by simp
      with earlier have "CRITICAL_LIMIT cfg < total_persons (obs ! (i' - j'))" by simp
      then show ?thesis using i Suc by simp
    qed
  qed
qed

lemma counter_bound:
  "consecutive_critical_frames s \<le> 0 \<Longrightarrow>
   consecutive_critical_frames (state_after cfg s obs) \<le> int (length obs)"
proof (induction obs rule: rev_induct)
  case Nil
  then show ?case by simp
next
  case (snoc ob obs)
  have "state_after cfg s (obs @ [ob]) = snd (debouncer_step cfg ob (state_after cfg s obs))"
    using state_after_take_Suc [of "length obs" "obs @ [ob]" cfg s] by simp
  then show ?case using snoc by (simp add: step_counter)
qed

lemma buffer_size_45: "BUFFER_SIZE pi_stream_config = 45"
  by code_simp

lemma main_loop_Cons:
  "main_loop cfg s (ob # obs) =
   fst (debouncer_step cfg ob s) # main_loop cfg (snd (debouncer_step cfg ob s)) obs"
  by (simp split: prod.splits)

text \<open>
  C1. In a run of the main loop that starts with \<open>consecutive_critical_frames = 0\<close>, a frame
  shows \<open>CRITICAL RISK\<close> only if it is at least the \<open>BUFFER_SIZE + 1\<close>-th frame and each of the
  \<open>BUFFER_SIZE + 1\<close> most recent counts, the current one included, is strictly above
  \<open>CRITICAL_LIMIT\<close>. Hence fewer than \<open>BUFFER_SIZE + 1\<close> consecutive qualifying frames never
  give \<open>CRITICAL RISK\<close>.
\<close>

theorem critical_needs_full_streak:
  assumes "consecutive_critical_frames s = 0"
    and "i < length obs"
    and "display_status (main_loop cfg s obs ! i) = ''CRITICAL RISK''"
  shows "nat (BUFFER_SIZE cfg + 1) \<le> i + 1 \<and>
         (\<forall>k < nat (BUFFER_SIZE cfg + 1). CRITICAL_LIMIT cfg < total_persons (obs ! (i - k)))"
proof -
  let ?c = "consecutive_critical_frames (state_after cfg s (take (Suc i) obs))"
  have crit: "BUFFER_SIZE cfg < ?c"
    using assms(2,3) by (simp add: main_loop_nth state_after_take_Suc critical_iff)
  have "?c \<le> int (length (take (Suc i) obs))"
    using assms(1) by (intro counter_bound) simp
  then have bound: "?c \<le> int i + 1" using assms(2) by simp
  with crit have len: "nat (BUFFER_SIZE cfg + 1) \<le> i + 1" by linarith
  have "CRITICAL_LIMIT cfg < total_persons (obs ! (i - k))" if "k < nat (BUFFER_SIZE cfg + 1)" for k
  proof -
    from that len have "k \<le> i" by linarith
    moreover from that crit have "int k < ?c" by linarith
    ultimately show ?thesis using streak [OF assms(2), of k cfg s] by simp
  qed
  with len show ?thesis by simp
qed


theorem critical_needs_full_streak_witness:
  "consecutive_critical_frames initial_state = 0 \<and>
   (3::nat) < length [frame_at 30 100, frame_at 30 101, frame_at 30 102, frame_at 30 103] \<and>
   display_status
     (main_loop scenario_config initial_state
        [frame_at 30 100, frame_at 30 101, frame_at 30 102, frame_at 30 103] ! 3) =
     ''CRITICAL RISK'' \<and>
   nat (BUFFER_SIZE scenario_config + 1) \<le> 3 + 1 \<and>
   CRITICAL_LIMIT scenario_config <
     total_persons ([frame_at 30 100, frame_at 30 101, frame_at 30 102, frame_at 30 103] ! (3 - 0)) \<and>
   CRITICAL_LIMIT scenario_config <
     total_persons ([frame_at 30 100, frame_at 30 101, frame_at 30 102, frame_at 30 103] ! (3 - 3))"
proof -
  let ?obs = "[frame_at 30 100, frame_at 30 101, frame_at 30 102, frame_at 30 103]"
  have h1: "consecutive_critical_frames initial_state = 0"
    by (simp add: initial_state_def)
  have h2: "(3::nat) < length ?obs"
    by simp
  have h3: "display_status (main_loop scenario_config initial_state ?obs ! 3) = ''CRITICAL RISK''"
    by (simp add: main_loop_Cons step_status step_counter scenario_config_def frame_at_def
        initial_state_def del: main_loop.simps(2))
  have k0: "(0::nat) < nat (BUFFER_SIZE scenario_config + 1)"
    and k3: "(3::nat) < nat (BUFFER_SIZE scenario_config + 1)"
    by (simp_all add: scenario_config_def)
  from critical_needs_full_streak [OF h1 h2 h3] h1 h2 h3 k0 k3 show ?thesis
    by blast
qed

text \<open>
  C2. With thresholds 20 and 25 and a persistence window of 3, a run that starts with
  \<open>consecutive_critical_frames = 0\<close> on the counts 30, 30, 30, 30, 10, 30, 30, 30, 30 shows
  \<open>High Density\<close> three times, then \<open>CRITICAL RISK\<close>, \<open>Normal\<close>, \<open>High Density\<close> three times and
  \<open>CRITICAL RISK\<close>, whatever the clock reads.
\<close>

theorem scenario_statuses:
  assumes "map total_persons obs = [30, 30, 30, 30, 10, 30, 30, 30, 30]"
    and "consecutive_critical_frames s = 0"
  shows "map display_status (main_loop scenario_config s obs) =
         [''High Density'', ''High Density'', ''High Density'', ''CRITICAL RISK'', ''Normal'',
          ''High Density'', ''High Density'', ''High Density'', ''CRITICAL RISK'']"
proof -
  from assms(1) obtain o1 o2 o3 o4 o5 o6 o7 o8 o9 where
    obs: "obs = [o1, o2, o3, o4, o5, o6, o7, o8, o9]"
    and n: "total_persons o1 = 30" "total_persons o2 = 30" "total_persons o3 = 30"
      "total_persons o4 = 30" "total_persons o5 = 10" "total_persons o6 = 30"
      "total_persons o7 = 30" "total_persons o8 = 30" "total_persons o9 = 30"
    by (auto simp add: map_eq_Cons_conv)
  show ?thesis
    unfolding obs
    by (simp only: main_loop_Cons main_loop.simps list.map step_status step_counter n assms(2)
        scenario_config_def config.simps)
      simp
qed


theorem scenario_statuses_witness:
  "map total_persons
     [frame_at 30 100, frame_at 30 101, frame_at 30 102, frame_at 30 103, frame_at 10 104,
      frame_at 30 105, frame_at 30 106, frame_at 30 107, frame_at 30 108] =
   [30, 30, 30, 30, 10, 30, 30, 30, 30] \<and>
   consecutive_critical_frames initial_state = 0 \<and>
   map display_status
     (main_loop scenario_config initial_state
        [frame_at 30 100, frame_at 30 101, frame_at 30 102, frame_at 30 103, frame_at 10 104,
         frame_at 30 105, frame_at 30 106, frame_at 30 107, frame_at 30 108]) =
   [''High Density'', ''High Density'', ''High Density'', ''CRITICAL RISK'', ''Normal'',
    ''High Density'', ''High Density'', ''High Density'', ''CRITICAL RISK'']"
proof -
  let ?obs = "[frame_at 30 100, frame_at 30 101, frame_at 30 102, frame_at 30 103,
               frame_at 10 104, frame_at 30 105, frame_at 30 106, frame_at 30 107,
               frame_at 30 108]"
  have h1: "map total_persons ?obs = [30, 30, 30, 30, 10, 30, 30, 30, 30]"
    by (simp add: frame_at_def)
  have h2: "consecutive_critical_frames initial_state = 0"
    by (simp add: initial_state_def)
  from scenario_statuses [OF h1 h2] h1 h2 show ?thesis
    by blast
qed

text \<open>
  C3. A frame whose count is at or below \<open>CRITICAL_LIMIT\<close> sets
  \<open>consecutive_critical_frames\<close> to 0, whatever its value was before.
\<close>

theorem reset_on_drop:
  "total_persons ob \<le> CRITICAL_LIMIT cfg \<Longrightarrow>
   consecutive_critical_frames (snd (debouncer_step cfg ob s)) = 0"
  by (simp add: step_counter)


theorem reset_on_drop_witness:
  "total_persons (frame_at 50 100) \<le> CRITICAL_LIMIT pi_stream_config \<and>
   consecutive_critical_frames
     (snd (debouncer_step pi_stream_config (frame_at 50 100)
        \<lparr>consecutive_critical_frames = 1000000, last_alert_time = 0\<rparr>)) = 0"
proof -
  have h: "total_persons (frame_at 50 100) \<le> CRITICAL_LIMIT pi_stream_config"
    by (simp add: frame_at_def pi_stream_config_def)
  from reset_on_drop [OF h] h show ?thesis
    by blast
qed

text \<open>
  C4. Under a configuration whose warning threshold does not exceed the critical one and whose
  persistence window is not negative, a frame whose count is at most \<open>WARNING_LIMIT\<close> shows
  \<open>Normal\<close> and leaves \<open>consecutive_critical_frames = 0\<close>, whatever the state was before.
\<close>

theorem normal_below_warning:
  assumes "total_persons ob \<le> WARNING_LIMIT cfg"
    and "WARNING_LIMIT cfg \<le> CRITICAL_LIMIT cfg"
    and "0 \<le> BUFFER_SIZE cfg"
  shows "display_status (fst (debouncer_step cfg ob s)) = ''Normal'' \<and>
         consecutive_critical_frames (snd (debouncer_step cfg ob s)) = 0"
  using assms by (simp add: step_status step_counter)


theorem normal_below_warning_witness:
  "total_persons (frame_at 30 100) \<le> WARNING_LIMIT pi_stream_config \<and>
   WARNING_LIMIT pi_stream_config \<le> CRITICAL_LIMIT pi_stream_config \<and>
   0 \<le> BUFFER_SIZE pi_stream_config \<and>
   display_status
     (fst (debouncer_step pi_stream_config (frame_at 30 100)
        \<lparr>consecutive_critical_frames = 77, last_alert_time = 0\<rparr>)) = ''Normal'' \<and>
   consecutive_critical_frames
     (snd (debouncer_step pi_stream_config (frame_at 30 100)
        \<lparr>consecutive_critical_frames = 77, last_alert_time = 0\<rparr>)) = 0"
proof -
  have h1: "total_persons (frame_at 30 100) \<le> WARNING_LIMIT pi_stream_config"
    by (simp add: frame_at_def pi_stream_config_def)
  have h2: "WARNING_LIMIT pi_stream_config \<le> CRITICAL_LIMIT pi_stream_config"
    by (simp add: pi_stream_config_def)
  have h3: "0 \<le> BUFFER_SIZE pi_stream_config"
    by (simp add: buffer_size_45)
  from normal_below_warning [OF h1 h2 h3] h1 h2 h3 show ?thesis
    by blast
qed

text \<open>
  C5. Under a configuration whose persistence window is not negative, a frame whose count is
  strictly above \<open>WARNING_LIMIT\<close> and strictly below \<open>CRITICAL_LIMIT\<close> shows \<open>High Density\<close>.
\<close>

theorem warning_between:
  assumes "WARNING_LIMIT cfg < total_persons ob"
    and "total_persons ob < CRITICAL_LIMIT cfg"
    and "0 \<le> BUFFER_SIZE cfg"
  shows "display_status (fst (debouncer_step cfg ob s)) = ''High Density''"
  using assms by (simp add: step_status step_counter)


theorem warning_between_witness:
  "WARNING_LIMIT pi_stream_config < total_persons (frame_at 40 100) \<and>
   total_persons (frame_at 40 100) < CRITICAL_LIMIT pi_stream_config \<and>
   0 \<le> BUFFER_SIZE pi_stream_config \<and>
   display_status
     (fst (debouncer_step pi_stream_config (frame_at 40 100)
        \<lparr>consecutive_critical_frames = 77, last_alert_time = 0\<rparr>)) = ''High Density''"
proof -
  have h1: "WARNING_LIMIT pi_stream_config < total_persons (frame_at 40 100)"
    by (simp add: frame_at_def pi_stream_config_def)
  have h2: "total_persons (frame_at 40 100) < CRITICAL_LIMIT pi_stream_config"
    by (simp add: frame_at_def pi_stream_config_def)
  have h3: "0 \<le> BUFFER_SIZE pi_stream_config"
    by (simp add: buffer_size_45)
  from warning_between [OF h1 h2 h3] h1 h2 h3 show ?thesis
    by blast
qed

lemma clock_readings_nth:
  "i < length obs \<Longrightarrow>
   clock_readings obs ! (2 * i) = clock_check (obs ! i) \<and>
   clock_readings obs ! (2 * i + 1) = clock_set (obs ! i)"
proof (induction obs arbitrary: i)
  case Nil
  then show ?case by simp
next
  case (Cons ob obs)
  show ?case
  proof (cases i)
    case 0
    then show ?thesis by (simp add: clock_readings_def)
  next
    case (Suc i')
    with Cons.prems have "i' < length obs" by simp
    from Cons.IH [OF this] show ?thesis using Suc by (simp add: clock_readings_def)
  qed
qed

lemma length_clock_readings: "length (clock_readings obs) = 2 * length obs"
  by (induction obs) (simp_all add: clock_readings_def)

lemma check_le_set:
  assumes "sorted (clock_readings obs)" "i < length obs"
  shows "clock_check (obs ! i) \<le> clock_set (obs ! i)"
proof -
  have "clock_readings obs ! (2 * i) \<le> clock_readings obs ! (2 * i + 1)"
    using assms by (intro sorted_nth_mono) (simp_all add: length_clock_readings)
  then show ?thesis using clock_readings_nth [OF assms(2)] by simp
qed

lemma set_le_check:
  assumes "sorted (clock_readings obs)" "i < k" "k < length obs"
  shows "clock_set (obs ! i) \<le> clock_check (obs ! k)"
proof -
  have "clock_readings obs ! (2 * i + 1) \<le> clock_readings obs ! (2 * k)"
    using assms by (intro sorted_nth_mono) (simp_all add: length_clock_readings)
  then show ?thesis
    using clock_readings_nth [of i obs] clock_readings_nth [of k obs] assms by simp
qed

lemma alert_elapsed:
  assumes "alert (fst (debouncer_step cfg ob s)) \<noteq> None"
  shows "5 < clock_check ob - last_alert_time s"
proof (rule ccontr)
  assume "\<not> 5 < clock_check ob - last_alert_time s"
  then have "clock_check ob - last_alert_time s \<le> 5" by simp
  then have "round_double (clock_check ob - last_alert_time s) \<le> round_double 5"
    by (rule round_double_mono)
  then have "\<not> 5 < float_sub (clock_check ob) (last_alert_time s)"
    by (simp add: float_sub_def round_double_5)
  with assms show False by (simp add: step_alert split: if_splits)
qed

lemma step_last_alert_set:
  "alert (fst (debouncer_step cfg ob s)) \<noteq> None \<Longrightarrow>
   last_alert_time (snd (debouncer_step cfg ob s)) = clock_set ob"
  by (simp add: debouncer_step_def Let_def split: if_splits)

lemma step_last_alert_cases:
  "last_alert_time (snd (debouncer_step cfg ob s)) = last_alert_time s \<or>
   last_alert_time (snd (debouncer_step cfg ob s)) = clock_set ob"
  by (simp add: debouncer_step_def Let_def)

lemma last_alert_after:
  assumes "sorted (clock_readings obs)" "i < length obs"
    and "alert (main_loop cfg s obs ! i) \<noteq> None"
  shows "i < m \<Longrightarrow> m \<le> length obs \<Longrightarrow>
         clock_set (obs ! i) \<le> last_alert_time (state_after cfg s (take m obs))"
proof (induction m)
  case 0
  then show ?case by simp
next
  case (Suc m)
  then have m: "m < length obs" by simp
  show ?case
  proof (cases "i = m")
    case True
    have "alert (fst (debouncer_step cfg (obs ! m) (state_after cfg s (take m obs)))) \<noteq> None"
      using assms(3) True unfolding main_loop_nth [OF assms(2)] by simp
    from step_last_alert_set [OF this] show ?thesis
      using True m by (simp add: state_after_take_Suc)
  next
    case False
    with Suc.prems have im: "i < m" by simp
    then have IH: "clock_set (obs ! i) \<le> last_alert_time (state_after cfg s (take m obs))"
      using Suc.IH m by simp
    have "clock_set (obs ! i) \<le> clock_check (obs ! m)"
      using set_le_check [OF assms(1) im m] .
    also have "\<dots> \<le> clock_set (obs ! m)" using check_le_set [OF assms(1) m] .
    finally have "clock_set (obs ! i) \<le> clock_set (obs ! m)" .
    with IH show ?thesis
      using step_last_alert_cases [of cfg "obs ! m" "state_after cfg s (take m obs)"] m
      by (auto simp add: state_after_take_Suc)
  qed
qed

text \<open>
  C7. While the clock does not run backwards, two frames of one run that both print the alert are
  more than 5 seconds apart, so that no window of 5 seconds holds two alerts, however long the
  status stays \<open>CRITICAL RISK\<close>. A frame prints the alert only when its status is
  \<open>CRITICAL RISK\<close> and more than 5 seconds have passed since \<open>last_alert_time\<close>, and printing
  stores the current clock reading in \<open>last_alert_time\<close>.
\<close>

theorem alert_cooldown:
  assumes "sorted (clock_readings obs)"
    and "i < j" and "j < length obs"
    and "alert (main_loop cfg s obs ! i) \<noteq> None"
    and "alert (main_loop cfg s obs ! j) \<noteq> None"
  shows "5 < clock_check (obs ! j) - clock_check (obs ! i) \<and>
         display_status (main_loop cfg s obs ! j) = ''CRITICAL RISK'' \<and>
         5 < clock_check (obs ! j) - last_alert_time (state_after cfg s (take j obs)) \<and>
         last_alert_time (state_after cfg s (take (Suc j) obs)) = clock_set (obs ! j)"
proof -
  let ?before = "state_after cfg s (take j obs)"
  have i: "i < length obs" using assms(2,3) by simp
  have al: "alert (fst (debouncer_step cfg (obs ! j) ?before)) \<noteq> None"
    using assms(5) unfolding main_loop_nth [OF assms(3)] .
  then have elapsed: "5 < clock_check (obs ! j) - last_alert_time ?before"
    by (rule alert_elapsed)
  have "clock_check (obs ! i) \<le> clock_set (obs ! i)"
    using check_le_set [OF assms(1) i] .
  also have "\<dots> \<le> last_alert_time ?before"
    using last_alert_after [OF assms(1) i assms(4), of j] assms(2,3) by simp
  finally have "5 < clock_check (obs ! j) - clock_check (obs ! i)"
    using elapsed by linarith
  moreover have "display_status (main_loop cfg s obs ! j) = ''CRITICAL RISK''"
    using al assms(3) by (simp add: main_loop_nth step_alert step_status split: if_splits)
  moreover have "last_alert_time (state_after cfg s (take (Suc j) obs)) = clock_set (obs ! j)"
    using step_last_alert_set [OF al] assms(3) by (simp only: state_after_take_Suc)
  ultimately show ?thesis using elapsed by simp
qed

theorem alert_cooldown_witness:
  "sorted (clock_readings
     [frame_at 30 100, frame_at 30 101, frame_at 30 102, frame_at 30 103, frame_at 30 104,
      frame_at 30 105, frame_at 30 106, frame_at 30 107, frame_at 30 108, frame_at 30 109]) \<and>
   alert (main_loop scenario_config initial_state
     [frame_at 30 100, frame_at 30 101, frame_at 30 102, frame_at 30 103, frame_at 30 104,
      frame_at 30 105, frame_at 30 106, frame_at 30 107, frame_at 30 108, frame_at 30 109] ! 3)
     \<noteq> None \<and>
   alert (main_loop scenario_config initial_state
     [frame_at 30 100, frame_at 30 101, frame_at 30 102, frame_at 30 103, frame_at 30 104,
      frame_at 30 105, frame_at 30 106, frame_at 30 107, frame_at 30 108, frame_at 30 109] ! 9)
     \<noteq> None \<and>
   5 < clock_check
     ([frame_at 30 100, frame_at 30 101, frame_at 30 102, frame_at 30 103, frame_at 30 104,
       frame_at 30 105, frame_at 30 106, frame_at 30 107, frame_at 30 108, frame_at 30 109] ! 9) -
     clock_check
     ([frame_at 30 100, frame_at 30 101, frame_at 30 102, frame_at 30 103, frame_at 30 104,
       frame_at 30 105, frame_at 30 106, frame_at 30 107, frame_at 30 108, frame_at 30 109] ! 3)"
proof -
  let ?obs = "[frame_at 30 100, frame_at 30 101, frame_at 30 102, frame_at 30 103,
               frame_at 30 104, frame_at 30 105, frame_at 30 106, frame_at 30 107,
               frame_at 30 108, frame_at 30 109]"
  have h1: "sorted (clock_readings ?obs)"
    by (simp add: clock_readings_def frame_at_def)
  have h2: "(3::nat) < 9"
    by simp
  have h3: "(9::nat) < length ?obs"
    by simp
  have h4: "alert (main_loop scenario_config initial_state ?obs ! 3) \<noteq> None"
    by code_simp
  have h5: "alert (main_loop scenario_config initial_state ?obs ! 9) \<noteq> None"
    by code_simp
  from alert_cooldown [OF h1 h2 h3 h4 h5] h1 h4 h5 show ?thesis
    by blast
qed

text \<open>
  C8 as stated lets the successor state follow from the count, the state and the current time.
  The script reads the clock a second time for the value it stores: two frames with the same
  count, the same state and the same reading at the comparison end with different values of
  \<open>last_alert_time\<close> when only the second reading differs.
\<close>

theorem successor_follows_second_reading:
  "last_alert_time
     (snd (debouncer_step scenario_config
        \<lparr>total_persons = 30, clock_check = 100, clock_set = 100\<rparr>
        \<lparr>consecutive_critical_frames = 3, last_alert_time = 0\<rparr>)) \<noteq>
   last_alert_time
     (snd (debouncer_step scenario_config
        \<lparr>total_persons = 30, clock_check = 100, clock_set = 101\<rparr>
        \<lparr>consecutive_critical_frames = 3, last_alert_time = 0\<rparr>))"
  by code_simp

text \<open>
  C8, as amended. Two frames with the same count and the same clock reading at the comparison,
  processed in states that agree on \<open>consecutive_critical_frames\<close> and \<open>last_alert_time\<close>,
  whatever else the states hold and whatever the second clock reading is, give the same status,
  colour and alert and the same \<open>consecutive_critical_frames\<close>: these are the values of the
  specification's function of count, state and current time. \<open>last_alert_time\<close> becomes the
  second clock reading when the alert is printed and keeps its value otherwise, and the step
  leaves every other part of the state as it was.
\<close>

theorem step_is_function_of_count_state_time:
  assumes "total_persons ob = total_persons ob'"
    and "clock_check ob = clock_check ob'"
    and "consecutive_critical_frames s = consecutive_critical_frames s'"
    and "last_alert_time s = last_alert_time s'"
  shows "fst (debouncer_step cfg ob s) = fst (debouncer_step cfg ob' s') \<and>
         consecutive_critical_frames (snd (debouncer_step cfg ob s)) =
           consecutive_critical_frames (snd (debouncer_step cfg ob' s')) \<and>
         (display_status (fst (debouncer_step cfg ob s)),
          alert (fst (debouncer_step cfg ob s)) \<noteq> None,
          consecutive_critical_frames (snd (debouncer_step cfg ob s))) =
           (case spec_step cfg (total_persons ob) (clock_check ob)
                   (consecutive_critical_frames s, last_alert_time s) of
              (status, emit, c) \<Rightarrow> (text_of_status status, emit, c)) \<and>
         last_alert_time (snd (debouncer_step cfg ob s)) =
           (if alert (fst (debouncer_step cfg ob s)) = None then last_alert_time s
            else clock_set ob) \<and>
         alarm_state.more (snd (debouncer_step cfg ob s)) = alarm_state.more s"
proof -
  have same: "fst (debouncer_step cfg ob s) = fst (debouncer_step cfg ob' s') \<and>
      consecutive_critical_frames (snd (debouncer_step cfg ob s)) =
        consecutive_critical_frames (snd (debouncer_step cfg ob' s'))"
    using assms by (simp add: debouncer_step_def Let_def)
  have refines: "(display_status (fst (debouncer_step cfg ob s)),
      alert (fst (debouncer_step cfg ob s)) \<noteq> None,
      consecutive_critical_frames (snd (debouncer_step cfg ob s))) =
        (case spec_step cfg (total_persons ob) (clock_check ob)
                (consecutive_critical_frames s, last_alert_time s) of
           (status, emit, c) \<Rightarrow> (text_of_status status, emit, c))"
    by (simp add: step_status step_alert step_counter spec_step_def text_of_status_def Let_def)
  have stored: "last_alert_time (snd (debouncer_step cfg ob s)) =
      (if alert (fst (debouncer_step cfg ob s)) = None then last_alert_time s else clock_set ob)"
    by (rule step_last_alert)
  have frame: "alarm_state.more (snd (debouncer_step cfg ob s)) = alarm_state.more s"
    by (simp add: debouncer_step_def Let_def)
  from same refines stored frame show ?thesis by blast
qed

theorem step_is_function_of_count_state_time_witness:
  "total_persons \<lparr>total_persons = 30, clock_check = 100, clock_set = 100\<rparr> =
   total_persons \<lparr>total_persons = 30, clock_check = 100, clock_set = 101\<rparr> \<and>
   clock_check \<lparr>total_persons = 30, clock_check = 100, clock_set = 100\<rparr> =
   clock_check \<lparr>total_persons = 30, clock_check = 100, clock_set = 101\<rparr> \<and>
   fst (debouncer_step scenario_config
     \<lparr>total_persons = 30, clock_check = 100, clock_set = 100\<rparr>
     \<lparr>consecutive_critical_frames = 3, last_alert_time = 0, \<dots> = ''camera A''\<rparr>) =
   fst (debouncer_step scenario_config
     \<lparr>total_persons = 30, clock_check = 100, clock_set = 101\<rparr>
     \<lparr>consecutive_critical_frames = 3, last_alert_time = 0, \<dots> = ''camera B''\<rparr>) \<and>
   consecutive_critical_frames (snd (debouncer_step scenario_config
     \<lparr>total_persons = 30, clock_check = 100, clock_set = 100\<rparr>
     \<lparr>consecutive_critical_frames = 3, last_alert_time = 0, \<dots> = ''camera A''\<rparr>)) =
   consecutive_critical_frames (snd (debouncer_step scenario_config
     \<lparr>total_persons = 30, clock_check = 100, clock_set = 101\<rparr>
     \<lparr>consecutive_critical_frames = 3, last_alert_time = 0, \<dots> = ''camera B''\<rparr>)) \<and>
   alarm_state.more (snd (debouncer_step scenario_config
     \<lparr>total_persons = 30, clock_check = 100, clock_set = 100\<rparr>
     \<lparr>consecutive_critical_frames = 3, last_alert_time = 0, \<dots> = ''camera A''\<rparr>)) =
   ''camera A''"
proof -
  let ?ob = "\<lparr>total_persons = 30, clock_check = 100, clock_set = 100\<rparr>"
  let ?ob' = "\<lparr>total_persons = 30, clock_check = 100, clock_set = 101\<rparr>"
  let ?a = "\<lparr>consecutive_critical_frames = 3, last_alert_time = 0, \<dots> = ''camera A''\<rparr>"
  let ?b = "\<lparr>consecutive_critical_frames = 3, last_alert_time = 0, \<dots> = ''camera B''\<rparr>"
  have h1: "total_persons ?ob = total_persons ?ob'"
    by simp
  have h2: "clock_check ?ob = clock_check ?ob'"
    by simp
  have h3: "consecutive_critical_frames ?a = consecutive_critical_frames ?b"
    by simp
  have h4: "last_alert_time ?a = last_alert_time ?b"
    by simp
  note t = step_is_function_of_count_state_time [OF h1 h2 h3 h4, of scenario_config]
  from t have same: "fst (debouncer_step scenario_config ?ob ?a) =
      fst (debouncer_step scenario_config ?ob' ?b)"
    by (rule conjunct1)
  from t have counter: "consecutive_critical_frames (snd (debouncer_step scenario_config ?ob ?a)) =
      consecutive_critical_frames (snd (debouncer_step scenario_config ?ob' ?b))"
    by blast
  from t have "alarm_state.more (snd (debouncer_step scenario_config ?ob ?a)) =
      alarm_state.more ?a"
    by blast
  then have frame: "alarm_state.more (snd (debouncer_step scenario_config ?ob ?a)) = ''camera A''"
    by simp
  from h1 h2 same counter frame show ?thesis
    by blast
qed


section \<open>Strict thresholds in both programs\<close>

lemma draw_boxes_count: "fst (draw_boxes n boxes) = n + int (length boxes)"
proof (induction boxes arbitrary: n)
  case Nil
  then show ?case by simp
next
  case (Cons box boxes)
  from Cons.IH [of "n + 1"] show ?case by (cases "draw_boxes (n + 1) boxes") simp
qed

lemma process_frame_status:
  "process_frame boxes = (frame, n, status_text, css_class) \<Longrightarrow>
   n = int (length boxes) \<and>
   status_text =
     (if 25 < n then ''CRITICAL RISK'' else if 20 < n then ''High Density'' else ''Normal'') \<and>
   css_class =
     (if 25 < n then ''status-critical'' else if 20 < n then ''status-warning''
      else ''status-normal'')"
  using draw_boxes_count [of 0 boxes]
  by (auto simp add: process_frame_def split: prod.splits if_splits)

lemma no_critical_after_drop:
  assumes "j \<le> i" "i < length obs"
    and "total_persons (obs ! j) \<le> CRITICAL_LIMIT cfg"
    and "int (i - j) \<le> BUFFER_SIZE cfg"
  shows "display_status (main_loop cfg s obs ! i) \<noteq> ''CRITICAL RISK''"
proof
  assume "display_status (main_loop cfg s obs ! i) = ''CRITICAL RISK''"
  then have "BUFFER_SIZE cfg < consecutive_critical_frames (state_after cfg s (take (Suc i) obs))"
    using assms(2) by (simp add: main_loop_nth state_after_take_Suc critical_iff)
  with assms(4) have "int (i - j) < consecutive_critical_frames (state_after cfg s (take (Suc i) obs))"
    by linarith
  from streak [OF assms(2) _ this] have "CRITICAL_LIMIT cfg < total_persons (obs ! (i - (i - j)))"
    by simp
  with assms(1,3) show False by simp
qed

text \<open>
  C6. The threshold comparisons are strict. A frame whose count equals \<open>CRITICAL_LIMIT\<close> sets
  \<open>consecutive_critical_frames\<close> to 0 instead of raising it and, under a persistence window that
  is not negative, does not show \<open>CRITICAL RISK\<close>; no frame within \<open>BUFFER_SIZE\<close> frames after
  it shows \<open>CRITICAL RISK\<close> either. A frame whose count equals \<open>WARNING_LIMIT\<close> shows \<open>Normal\<close>
  (the warning threshold not above the critical one). In \<open>app.py\<close>, 25 persons give
  \<open>High Density\<close> and an orange box, 20 persons give \<open>Normal\<close> and a green box.
\<close>

theorem strict_thresholds:
  "(total_persons ob = CRITICAL_LIMIT cfg \<longrightarrow>
      consecutive_critical_frames (snd (debouncer_step cfg ob s)) = 0 \<and>
      (0 \<le> BUFFER_SIZE cfg \<longrightarrow>
         display_status (fst (debouncer_step cfg ob s)) \<noteq> ''CRITICAL RISK'')) \<and>
   (j \<le> i \<and> i < length obs \<and> total_persons (obs ! j) = CRITICAL_LIMIT cfg \<and>
    int (i - j) \<le> BUFFER_SIZE cfg \<longrightarrow>
      display_status (main_loop cfg s obs ! i) \<noteq> ''CRITICAL RISK'') \<and>
   (total_persons ob = WARNING_LIMIT cfg \<and> WARNING_LIMIT cfg \<le> CRITICAL_LIMIT cfg \<and>
    0 \<le> BUFFER_SIZE cfg \<longrightarrow>
      display_status (fst (debouncer_step cfg ob s)) = ''Normal'') \<and>
   (case process_frame boxes of
      (frame, n, status_text, css_class) \<Rightarrow>
        (n = 25 \<longrightarrow> status_text = ''High Density'') \<and> (n = 20 \<longrightarrow> status_text = ''Normal'')) \<and>
   box_color 25 = (0, 165, 255) \<and> box_color 20 = (0, 255, 0)"
proof -
  have a: "total_persons ob = CRITICAL_LIMIT cfg \<longrightarrow>
      consecutive_critical_frames (snd (debouncer_step cfg ob s)) = 0 \<and>
      (0 \<le> BUFFER_SIZE cfg \<longrightarrow>
         display_status (fst (debouncer_step cfg ob s)) \<noteq> ''CRITICAL RISK'')"
    by (simp add: step_status step_counter)
  have b: "j \<le> i \<and> i < length obs \<and> total_persons (obs ! j) = CRITICAL_LIMIT cfg \<and>
    int (i - j) \<le> BUFFER_SIZE cfg \<longrightarrow>
      display_status (main_loop cfg s obs ! i) \<noteq> ''CRITICAL RISK''"
    using no_critical_after_drop [of j i obs cfg s] by auto
  have c: "total_persons ob = WARNING_LIMIT cfg \<and> WARNING_LIMIT cfg \<le> CRITICAL_LIMIT cfg \<and>
    0 \<le> BUFFER_SIZE cfg \<longrightarrow>
      display_status (fst (debouncer_step cfg ob s)) = ''Normal''"
    by (simp add: step_status step_counter)
  have d: "case process_frame boxes of
      (frame, n, status_text, css_class) \<Rightarrow>
        (n = 25 \<longrightarrow> status_text = ''High Density'') \<and> (n = 20 \<longrightarrow> status_text = ''Normal'')"
    using process_frame_status [of boxes] by (auto split: prod.splits)
  have e: "box_color 25 = (0, 165, 255) \<and> box_color 20 = (0, 255, 0)"
    by (simp add: box_color_def)
  from a b c d e show ?thesis by blast
qed

theorem strict_thresholds_witness:
  "total_persons (frame_at 25 100) = CRITICAL_LIMIT scenario_config \<and>
   consecutive_critical_frames
     (snd (debouncer_step scenario_config (frame_at 25 100)
        \<lparr>consecutive_critical_frames = 3, last_alert_time = 0\<rparr>)) = 0 \<and>
   display_status
     (fst (debouncer_step scenario_config (frame_at 25 100)
        \<lparr>consecutive_critical_frames = 3, last_alert_time = 0\<rparr>)) \<noteq> ''CRITICAL RISK'' \<and>
   display_status
     (main_loop scenario_config \<lparr>consecutive_critical_frames = 3, last_alert_time = 0\<rparr>
        [frame_at 30 100, frame_at 25 101, frame_at 30 102, frame_at 30 103, frame_at 30 104]
      ! 4) \<noteq> ''CRITICAL RISK''"
proof -
  let ?s = "\<lparr>consecutive_critical_frames = 3, last_alert_time = 0\<rparr>"
  let ?obs = "[frame_at 30 100, frame_at 25 101, frame_at 30 102, frame_at 30 103,
               frame_at 30 104]"
  have h1: "total_persons (frame_at 25 100) = CRITICAL_LIMIT scenario_config"
    by (simp add: frame_at_def scenario_config_def)
  have h2: "0 \<le> BUFFER_SIZE scenario_config"
    by (simp add: scenario_config_def)
  have h3: "(1::nat) \<le> 4 \<and> (4::nat) < length ?obs \<and>
      total_persons (?obs ! 1) = CRITICAL_LIMIT scenario_config \<and>
      int (4 - 1) \<le> BUFFER_SIZE scenario_config"
    by (simp add: frame_at_def scenario_config_def)
  from strict_thresholds [of "frame_at 25 100" scenario_config ?s 1 4 ?obs] h1 h2 h3
  show ?thesis
    by blast
qed


section \<open>Evaluating roundings\<close>

lemma powi_less_cancel: "(2::rat) powi a < 2 powi b \<Longrightarrow> a < b"
  by (metis linorder_not_less powi_le)

lemma binade_unique:
  assumes "0 < x" "2 powi e \<le> x" "x < 2 powi (e + 1)"
  shows "binade x = e"
proof -
  from binade_correct [OF assms(1)]
  have lo: "2 powi binade x \<le> x" and hi: "x < 2 powi (binade x + 1)" by simp_all
  from assms(2) hi have "(2::rat) powi e < 2 powi (binade x + 1)" by simp
  then have "e < binade x + 1" by (rule powi_less_cancel)
  moreover from lo assms(3) have "(2::rat) powi binade x < 2 powi (e + 1)" by simp
  then have "binade x < e + 1" by (rule powi_less_cancel)
  ultimately show ?thesis by simp
qed

lemma round_double_eval:
  assumes "0 < x" "- 1022 \<le> e" "2 powi e \<le> x" "x < 2 powi (e + 1)"
    and "round_half_even (x / 2 powi (e - 52)) = m"
  shows "round_double x = of_int m * 2 powi (e - 52)"
  using assms binade_unique [OF assms(1,3,4)]
  by (simp add: round_double_def round_pos_def Let_def max_def)

lemma rhe_eval:
  assumes "of_int m - 1 / 2 < y" "y < of_int m + 1 / 2"
  shows "round_half_even y = m"
proof -
  have "round_half_even y \<le> m"
    using rhe_below_half [of y "m + 1"] assms(2) by simp
  moreover have "m \<le> round_half_even y"
    using rhe_lower [of y] assms(1) by linarith
  ultimately show ?thesis by simp
qed

lemma rhe_tie_odd:
  assumes "y = of_int f + 1 / 2" "odd f"
  shows "round_half_even y = f + 1"
proof -
  have "\<lfloor>y\<rfloor> = f" unfolding assms(1) by linarith
  then show ?thesis using assms by (simp add: round_half_even_def Let_def)
qed

lemma tenth_one: "round_double (1 / 10) = 3602879701896397 / 36028797018963968"
proof -
  have "round_half_even (1 / 10 / 2 powi (- 4 - 52)) = 7205759403792794"
    by (rule rhe_eval) simp_all
  from round_double_eval [where e = "- 4", OF _ _ _ _ this] show ?thesis by simp
qed

lemma ten_tenths_one: "round_double (10 * (3602879701896397 / 36028797018963968)) = 1"
proof -
  have "round_half_even (10 * (3602879701896397 / 36028797018963968) / 2 powi (0 - 52)) = 4503599627370496"
    by (rule rhe_eval) simp_all
  from round_double_eval [where e = "0", OF _ _ _ _ this] show ?thesis by simp
qed

lemma tenth_two: "round_double (1 / 5) = 3602879701896397 / 18014398509481984"
proof -
  have "round_half_even (1 / 5 / 2 powi (- 3 - 52)) = 7205759403792794"
    by (rule rhe_eval) simp_all
  from round_double_eval [where e = "- 3", OF _ _ _ _ this] show ?thesis by simp
qed

lemma ten_tenths_two: "round_double (10 * (3602879701896397 / 18014398509481984)) = 2"
proof -
  have "round_half_even (10 * (3602879701896397 / 18014398509481984) / 2 powi (1 - 52)) = 4503599627370496"
    by (rule rhe_eval) simp_all
  from round_double_eval [where e = "1", OF _ _ _ _ this] show ?thesis by simp
qed

lemma tenth_three: "round_double (3 / 10) = 5404319552844595 / 18014398509481984"
proof -
  have "round_half_even (3 / 10 / 2 powi (- 2 - 52)) = 5404319552844595"
    by (rule rhe_eval) simp_all
  from round_double_eval [where e = "- 2", OF _ _ _ _ this] show ?thesis by simp
qed

lemma ten_tenths_three: "round_double (10 * (5404319552844595 / 18014398509481984)) = 3"
proof -
  have "round_half_even (10 * (5404319552844595 / 18014398509481984) / 2 powi (1 - 52)) = 6755399441055744"
    by (rule rhe_eval) simp_all
  from round_double_eval [where e = "1", OF _ _ _ _ this] show ?thesis by simp
qed

lemma tenth_four: "round_double (2 / 5) = 3602879701896397 / 9007199254740992"
proof -
  have "round_half_even (2 / 5 / 2 powi (- 2 - 52)) = 7205759403792794"
    by (rule rhe_eval) simp_all
  from round_double_eval [where e = "- 2", OF _ _ _ _ this] show ?thesis by simp
qed

lemma ten_tenths_four: "round_double (10 * (3602879701896397 / 9007199254740992)) = 4"
proof -
  have "round_half_even (10 * (3602879701896397 / 9007199254740992) / 2 powi (2 - 52)) = 4503599627370496"
    by (rule rhe_eval) simp_all
  from round_double_eval [where e = "2", OF _ _ _ _ this] show ?thesis by simp
qed

lemma tenth_five: "round_double (1 / 2) = 1 / 2"
proof -
  have "round_half_even (1 / 2 / 2 powi (- 1 - 52)) = 4503599627370496"
    by (rule rhe_eval) simp_all
  from round_double_eval [where e = "- 1", OF _ _ _ _ this] show ?thesis by simp
qed

lemma ten_tenths_five: "round_double (10 * (1 / 2)) = 5"
proof -
  have "round_half_even (10 * (1 / 2) / 2 powi (2 - 52)) = 5629499534213120"
    by (rule rhe_eval) simp_all
  from round_double_eval [where e = "2", OF _ _ _ _ this] show ?thesis by simp
qed

lemma tenth_six: "round_double (3 / 5) = 5404319552844595 / 9007199254740992"
proof -
  have "round_half_even (3 / 5 / 2 powi (- 1 - 52)) = 5404319552844595"
    by (rule rhe_eval) simp_all
  from round_double_eval [where e = "- 1", OF _ _ _ _ this] show ?thesis by simp
qed

lemma ten_tenths_six: "round_double (10 * (5404319552844595 / 9007199254740992)) = 6"
proof -
  have "round_half_even (10 * (5404319552844595 / 9007199254740992) / 2 powi (2 - 52)) = 6755399441055744"
    by (rule rhe_eval) simp_all
  from round_double_eval [where e = "2", OF _ _ _ _ this] show ?thesis by simp
qed

lemma tenth_seven: "round_double (7 / 10) = 3152519739159347 / 4503599627370496"
proof -
  have "round_half_even (7 / 10 / 2 powi (- 1 - 52)) = 6305039478318694"
    by (rule rhe_eval) simp_all
  from round_double_eval [where e = "- 1", OF _ _ _ _ this] show ?thesis by simp
qed

lemma ten_tenths_seven: "round_double (10 * (3152519739159347 / 4503599627370496)) = 7"
proof -
  have "round_half_even (10 * (3152519739159347 / 4503599627370496) / 2 powi (2 - 52)) = 7881299347898367 + 1"
    by (rule rhe_tie_odd) simp_all
  from round_double_eval [where e = "2", OF _ _ _ _ this] show ?thesis by simp
qed

lemma tenth_eight: "round_double (4 / 5) = 3602879701896397 / 4503599627370496"
proof -
  have "round_half_even (4 / 5 / 2 powi (- 1 - 52)) = 7205759403792794"
    by (rule rhe_eval) simp_all
  from round_double_eval [where e = "- 1", OF _ _ _ _ this] show ?thesis by simp
qed

lemma ten_tenths_eight: "round_double (10 * (3602879701896397 / 4503599627370496)) = 8"
proof -
  have "round_half_even (10 * (3602879701896397 / 4503599627370496) / 2 powi (3 - 52)) = 4503599627370496"
    by (rule rhe_eval) simp_all
  from round_double_eval [where e = "3", OF _ _ _ _ this] show ?thesis by simp
qed

lemma tenth_nine: "round_double (9 / 10) = 8106479329266893 / 9007199254740992"
proof -
  have "round_half_even (9 / 10 / 2 powi (- 1 - 52)) = 8106479329266893"
    by (rule rhe_eval) simp_all
  from round_double_eval [where e = "- 1", OF _ _ _ _ this] show ?thesis by simp
qed

lemma ten_tenths_nine: "round_double (10 * (8106479329266893 / 9007199254740992)) = 9"
proof -
  have "round_half_even (10 * (8106479329266893 / 9007199254740992) / 2 powi (3 - 52)) = 5066549580791808"
    by (rule rhe_eval) simp_all
  from round_double_eval [where e = "3", OF _ _ _ _ this] show ?thesis by simp
qed

lemma tenths_one: "round_double (10 * round_double (of_int (10 * 1) / 100)) = 1"
proof -
  have a: "(of_int (10 * 1) / 100 :: rat) = 1 / 10" by simp
  show ?thesis unfolding a tenth_one by (rule ten_tenths_one)
qed

lemma tenths_two: "round_double (10 * round_double (of_int (10 * 2) / 100)) = 2"
proof -
  have a: "(of_int (10 * 2) / 100 :: rat) = 1 / 5" by simp
  show ?thesis unfolding a tenth_two by (rule ten_tenths_two)
qed

lemma tenths_three: "round_double (10 * round_double (of_int (10 * 3) / 100)) = 3"
proof -
  have a: "(of_int (10 * 3) / 100 :: rat) = 3 / 10" by simp
  show ?thesis unfolding a tenth_three by (rule ten_tenths_three)
qed

lemma tenths_four: "round_double (10 * round_double (of_int (10 * 4) / 100)) = 4"
proof -
  have a: "(of_int (10 * 4) / 100 :: rat) = 2 / 5" by simp
  show ?thesis unfolding a tenth_four by (rule ten_tenths_four)
qed

lemma tenths_five: "round_double (10 * round_double (of_int (10 * 5) / 100)) = 5"
proof -
  have a: "(of_int (10 * 5) / 100 :: rat) = 1 / 2" by simp
  show ?thesis unfolding a tenth_five by (rule ten_tenths_five)
qed

lemma tenths_six: "round_double (10 * round_double (of_int (10 * 6) / 100)) = 6"
proof -
  have a: "(of_int (10 * 6) / 100 :: rat) = 3 / 5" by simp
  show ?thesis unfolding a tenth_six by (rule ten_tenths_six)
qed

lemma tenths_seven: "round_double (10 * round_double (of_int (10 * 7) / 100)) = 7"
proof -
  have a: "(of_int (10 * 7) / 100 :: rat) = 7 / 10" by simp
  show ?thesis unfolding a tenth_seven by (rule ten_tenths_seven)
qed

lemma tenths_eight: "round_double (10 * round_double (of_int (10 * 8) / 100)) = 8"
proof -
  have a: "(of_int (10 * 8) / 100 :: rat) = 4 / 5" by simp
  show ?thesis unfolding a tenth_eight by (rule ten_tenths_eight)
qed

lemma tenths_nine: "round_double (10 * round_double (of_int (10 * 9) / 100)) = 9"
proof -
  have a: "(of_int (10 * 9) / 100 :: rat) = 9 / 10" by simp
  show ?thesis unfolding a tenth_nine by (rule ten_tenths_nine)
qed

lemma binade_ge:
  assumes "0 < x" "2 powi a \<le> x"
  shows "a \<le> binade x"
proof -
  from binade_correct [OF assms(1)] assms(2)
  have "(2::rat) powi a < 2 powi (binade x + 1)" by simp
  then have "a < binade x + 1" by (rule powi_less_cancel)
  then show ?thesis by simp
qed

lemma round_double_error:
  assumes "0 < x" "- 1022 \<le> binade x"
  shows "\<bar>round_double x - x\<bar> \<le> x / 9007199254740992"
proof -
  define u :: rat where "u = 2 powi (binade x - 52)"
  define y where "y = x / u"
  have u: "0 < u" by (simp add: u_def)
  have x: "x = y * u" using u by (simp add: y_def)
  have rd: "round_double x = of_int (round_half_even y) * u"
    using assms by (simp add: round_double_def round_pos_def Let_def max_def u_def y_def)
  have "\<bar>of_int (round_half_even y) - y\<bar> \<le> 1 / 2"
    using rhe_lower [of y] rhe_upper [of y] by linarith
  then have "\<bar>of_int (round_half_even y) - y\<bar> * u \<le> 1 / 2 * u"
    using u by (intro mult_right_mono) simp_all
  moreover have "\<bar>round_double x - x\<bar> = \<bar>of_int (round_half_even y) - y\<bar> * u"
  proof -
    have "of_int (round_half_even y) * u - x = of_int (round_half_even y) * u - y * u"
      using x by simp
    then have "round_double x - x = (of_int (round_half_even y) - y) * u"
      by (simp only: rd left_diff_distrib)
    then show ?thesis using u by (simp add: abs_mult)
  qed
  moreover have "4503599627370496 * u \<le> x"
  proof -
    have "(2::rat) ^ 52 * u = 2 powi binade x" unfolding u_def by (rule scale52)
    then have "4503599627370496 * u = 2 powi binade x" by simp
    with binade_correct [OF assms(1)] show ?thesis by simp
  qed
  ultimately show ?thesis by linarith
qed

lemma filled_inexact:
  fixes k r :: int
  assumes "0 \<le> k" "k \<le> 9" "1 \<le> r" "r \<le> 9"
  shows "\<lfloor>round_double (10 * round_double (of_int (10 * k + r) / 100))\<rfloor> = k"
proof -
  define x :: rat where "x = of_int (10 * k + r) / 100"
  define p where "p = round_double x"
  define v where "v = round_double (10 * p)"
  have k: "(0::rat) \<le> of_int k" "(of_int k :: rat) \<le> 9"
    using assms(1,2) by simp_all
  have r: "(1::rat) \<le> of_int r" "(of_int r :: rat) \<le> 9"
    using assms(3,4) by simp_all
  have xv: "x = (10 * of_int k + of_int r) / 100" by (simp add: x_def)
  have xlo: "1 / 100 \<le> x" and xhi: "x \<le> 1" using k r unfolding xv by simp_all
  have xpos: "0 < x" using xlo by simp
  have "(2::rat) powi (- 7) \<le> x" using xlo by simp
  then have "- 1022 \<le> binade x" using binade_ge [OF xpos, of "- 7"] by simp
  from round_double_error [OF xpos this]
  have pe: "\<bar>p - x\<bar> \<le> x / 9007199254740992" by (simp only: p_def)
  have plo: "1 / 200 \<le> p" using pe xlo by linarith
  have ypos: "0 < 10 * p" using plo by simp
  have "(2::rat) powi (- 7) \<le> 10 * p" using plo by simp
  then have "- 1022 \<le> binade (10 * p)" using binade_ge [OF ypos, of "- 7"] by simp
  from round_double_error [OF ypos this]
  have ve: "\<bar>v - 10 * p\<bar> \<le> 10 * p / 9007199254740992" by (simp only: v_def)
  from pe have p1: "x - x / 9007199254740992 \<le> p" and p2: "p \<le> x + x / 9007199254740992"
    by linarith+
  from ve have v1: "10 * p - 10 * p / 9007199254740992 \<le> v"
    and v2: "v \<le> 10 * p + 10 * p / 9007199254740992"
    by linarith+
  have x1: "of_int k / 10 + 1 / 100 \<le> x" and x2: "x \<le> of_int k / 10 + 9 / 100"
    using r unfolding xv by simp_all
  have a1: "10 * x - 20 * x / 9007199254740992 \<le> v"
    using p1 v1 xpos by linarith
  have a2: "v \<le> 10 * x + 30 * x / 9007199254740992"
    using p2 v2 xpos by linarith
  have lo: "of_int k \<le> v"
    using a1 x1 k by linarith
  have hi: "v < of_int k + 1"
    using a2 x2 k by linarith
  from lo hi have "\<lfloor>v\<rfloor> = k" by linarith
  then show ?thesis by (simp add: v_def p_def x_def)
qed

lemma round_double_0: "round_double 0 = 0"
  by (simp add: round_double_def)

lemma round_double_nonneg: "0 \<le> x \<Longrightarrow> 0 \<le> round_double x"
  using round_double_mono [of 0 x] by (simp add: round_double_0)

lemma filled_exact:
  fixes k :: int
  assumes "0 \<le> k" "k \<le> 9"
  shows "\<lfloor>round_double (10 * round_double (of_int (10 * k) / 100))\<rfloor> = k"
proof -
  from assms have "k = 0 \<or> k = 1 \<or> k = 2 \<or> k = 3 \<or> k = 4 \<or> k = 5 \<or> k = 6 \<or> k = 7 \<or>
      k = 8 \<or> k = 9"
    by arith
  then consider "k = 0" | "k = 1" | "k = 2" | "k = 3" | "k = 4" | "k = 5" | "k = 6"
    | "k = 7" | "k = 8" | "k = 9"
    by blast
  then show ?thesis
  proof cases
    case 1
    then show ?thesis by (simp add: round_double_0)
  next
    case 2
    show ?thesis unfolding 2 tenths_one by simp
  next
    case 3
    show ?thesis unfolding 3 tenths_two by simp
  next
    case 4
    show ?thesis unfolding 4 tenths_three by simp
  next
    case 5
    show ?thesis unfolding 5 tenths_four by simp
  next
    case 6
    show ?thesis unfolding 6 tenths_five by simp
  next
    case 7
    show ?thesis unfolding 7 tenths_six by simp
  next
    case 8
    show ?thesis unfolding 8 tenths_seven by simp
  next
    case 9
    show ?thesis unfolding 9 tenths_eight by simp
  next
    case 10
    show ?thesis unfolding 10 tenths_nine by simp
  qed
qed

lemma filled_below_100:
  assumes "0 \<le> count" "count < 100"
  shows "int_of_float (float_mul 10 (py_min (round_double (of_int count / 100)) 1)) =
         count div 10"
proof -
  define p where "p = round_double (of_int count / 100)"
  have "(of_int count / 100 :: rat) \<le> 1" using assms(2) by simp
  from round_double_mono [OF this] have p1: "p \<le> 1" by (simp add: p_def round_double_1)
  have "(0::rat) \<le> of_int count / 100" using assms(1) by simp
  then have p0: "0 \<le> p" unfolding p_def by (rule round_double_nonneg)
  then have v0: "0 \<le> round_double (10 * p)" by (intro round_double_nonneg) simp
  have k: "0 \<le> count div 10" "count div 10 \<le> 9" using assms by simp_all
  have c: "count = 10 * (count div 10) + count mod 10" by simp
  have "\<lfloor>round_double (10 * p)\<rfloor> = count div 10"
  proof (cases "count mod 10 = 0")
    case True
    with c have "count = 10 * (count div 10)" by simp
    with filled_exact [OF k] show ?thesis by (simp add: p_def)
  next
    case False
    then have r: "1 \<le> count mod 10" "count mod 10 \<le> 9"
      using pos_mod_sign [of 10 count] pos_mod_bound [of 10 count] by simp_all
    from filled_inexact [OF k r] c show ?thesis by (simp add: p_def)
  qed
  with p1 v0 show ?thesis
    by (simp add: py_min_def float_mul_def int_of_float_def p_def)
qed


section \<open>The density bar of app.py\<close>

lemma str_repeat_single: "str_repeat [c] n = replicate (nat n) c"
  by (induction "nat n" arbitrary: n) (simp_all add: str_repeat_def replicate_append_same)

lemma truediv_finite:
  assumes "0 \<le> count" and "count < 100 * (2 ^ 1024 - 2 ^ 970)"
  shows "int_truediv count 100 = Inr (round_double (of_int count / 100))"
proof (cases "count = 0")
  case True
  then show ?thesis by (simp add: int_truediv_def round_double_0)
next
  case False
  define x :: rat where "x = of_int count / 100"
  have pos: "0 < x" using assms(1) False by (simp add: x_def)
  have "(of_int count :: rat) < of_int (100 * (2 ^ 1024 - 2 ^ 970))"
    using assms(2) by (simp only: of_int_less_iff)
  then have "x < 2 ^ 1024 - 2 ^ 970" by (simp add: x_def)
  from round_pos_finite [OF pos this] round_pos_nonneg [OF pos] pos
  have "0 \<le> round_double x" "round_double x < 2 ^ 1024"
    by (simp_all add: round_double_def)
  then have "\<not> 2 ^ 1024 \<le> \<bar>round_double x\<bar>" by linarith
  then show ?thesis
    by (simp add: int_truediv_def Let_def x_def)
qed

lemma truediv_overflow:
  assumes "100 * 2 ^ 1024 \<le> count"
  shows "int_truediv count 100 = Inl OverflowError"
proof -
  define x :: rat where "x = of_int count / 100"
  have "(of_int (100 * 2 ^ 1024) :: rat) \<le> of_int count"
    using assms by (simp only: of_int_le_iff)
  then have big: "2 powi 1024 \<le> x" by (simp add: x_def)
  then have pos: "0 < x" by (rule less_le_trans [rotated]) simp
  from binade_ge [OF pos big] have b: "1024 \<le> binade x" .
  then have "(2::rat) powi 1024 \<le> 2 powi binade x" by (rule powi_le)
  also have "\<dots> \<le> round_pos x" using b by (intro round_pos_lower [OF pos]) simp
  finally have "2 ^ 1024 \<le> \<bar>round_double x\<bar>"
    using pos by (simp add: round_double_def)
  then show ?thesis by (simp add: int_truediv_def Let_def x_def)
qed

lemma round_double_10: "round_double 10 = 10"
proof -
  have "round_half_even (10 / 2 powi (3 - 52)) = 5629499534213120"
    by (rule rhe_eval) simp_all
  from round_double_eval [where e = 3, OF _ _ _ _ this] show ?thesis by simp
qed

lemma filled_from_100:
  assumes "100 \<le> count"
  shows "int_of_float (float_mul 10 (py_min (round_double (of_int count / 100)) 1)) = 10"
proof -
  have "(1::rat) \<le> of_int count / 100" using assms by simp
  from round_double_mono [OF this] have "1 \<le> round_double (of_int count / 100)"
    by (simp add: round_double_1)
  then have "py_min (round_double (of_int count / 100)) 1 = 1"
    by (simp add: py_min_def)
  then show ?thesis by (simp add: float_mul_def round_double_10 int_of_float_def)
qed

lemma filled_value:
  assumes "0 \<le> count"
  shows "int_of_float (float_mul 10 (py_min (round_double (of_int count / 100)) 1)) =
         \<lfloor>10 * min (of_int count / 100) (1::rat)\<rfloor>"
proof (cases "100 \<le> count")
  case True
  then have "(1::rat) \<le> of_int count / 100" by simp
  then have "min (of_int count / 100) (1::rat) = 1" by (simp add: min_def)
  with filled_from_100 [OF True] show ?thesis by simp
next
  case False
  then have lt: "count < 100" by simp
  have "min (of_int count / 100) (1::rat) = of_int count / 100"
    using lt by (simp add: min_def)
  moreover have "\<lfloor>10 * (of_int count / 100 :: rat)\<rfloor> = count div 10"
  proof -
    have "10 * (of_int count / 100 :: rat) = of_int count / of_int 10" by simp
    then show ?thesis by (simp only: floor_divide_of_int_eq)
  qed
  ultimately show ?thesis using filled_below_100 [OF assms lt] by simp
qed

lemma density_bar_value:
  assumes "0 \<le> count" and "count < 100 * (2 ^ 1024 - 2 ^ 970)"
  shows "create_density_bar count =
         Inr (str_int count @ ascii '' People detected &nbsp; '' @
              replicate (nat \<lfloor>10 * min (of_int count / 100) (1::rat)\<rfloor>) 0x2588 @
              replicate (nat (10 - \<lfloor>10 * min (of_int count / 100) (1::rat)\<rfloor>)) 0x2591)"
  using truediv_finite [OF assms] filled_value [OF assms(1)]
  by (simp add: create_density_bar_def Let_def str_repeat_single)

text \<open>
  C9, as amended. For every count from 0 up to, but not including, \<open>100 * (2 ^ 1024 - 2 ^ 970)\<close>,
  \<open>create_density_bar\<close> returns the count, the text \<open>People detected\<close> and a bar of exactly
  10 cells, of which \<open>floor (10 * min (count / 100) 1)\<close> are filled; from 100 on the bar is
  full. The bound is where \<open>count / 100\<close> stops being a finite float.
\<close>

theorem density_bar_saturates:
  assumes "0 \<le> count" and "count < 100 * (2 ^ 1024 - 2 ^ 970)"
  shows "let filled = \<lfloor>10 * min (of_int count / 100) (1::rat)\<rfloor>;
             bar = replicate (nat filled) 0x2588 @ replicate (nat (10 - filled)) 0x2591
         in create_density_bar count =
              Inr (str_int count @ ascii '' People detected &nbsp; '' @ bar) \<and>
            length bar = 10 \<and> 0 \<le> filled \<and> filled \<le> 10 \<and>
            (100 \<le> count \<longrightarrow> bar = replicate 10 0x2588)"
proof -
  define filled where "filled = \<lfloor>10 * min (of_int count / 100) (1::rat)\<rfloor>"
  have lo: "0 \<le> filled"
    using assms(1) by (simp add: filled_def)
  have "10 * min (of_int count / 100) (1::rat) \<le> 10" by simp
  then have hi: "filled \<le> 10" unfolding filled_def by (simp add: floor_le_iff)
  have sat: "filled = 10" if "100 \<le> count"
  proof -
    from that have "(1::rat) \<le> of_int count / 100" by simp
    then have "min (of_int count / 100) (1::rat) = 1" by (simp add: min_def)
    then show ?thesis by (simp add: filled_def)
  qed
  have run: "create_density_bar count =
      Inr (str_int count @ ascii '' People detected &nbsp; '' @
           replicate (nat filled) 0x2588 @ replicate (nat (10 - filled)) 0x2591)"
    unfolding filled_def by (rule density_bar_value [OF assms])
  have len: "length (replicate (nat filled) (0x2588::nat) @ replicate (nat (10 - filled)) 0x2591) = 10"
    using lo hi by simp
  show ?thesis
    unfolding Let_def filled_def [symmetric]
    using run len lo hi sat by simp
qed

theorem density_bar_saturates_witness:
  "(0::int) \<le> 150 \<and> (150::int) < 100 * (2 ^ 1024 - 2 ^ 970) \<and>
   create_density_bar 150 =
     Inr (str_int 150 @ ascii '' People detected &nbsp; '' @ replicate 10 0x2588)"
proof -
  have h1: "(0::int) \<le> 150" by simp
  have h2: "(150::int) < 100 * (2 ^ 1024 - 2 ^ 970)" by simp
  from density_bar_saturates [OF h1 h2] h1 h2 show ?thesis
    by (simp add: Let_def)
qed

text \<open>
  C9 as stated asks for a result at every count that is not negative. At \<open>10 ^ 400\<close> the
  division \<open>count / max_capacity\<close> raises \<open>OverflowError\<close>.
\<close>

theorem density_bar_overflow: "create_density_bar (10 ^ 400) = Inl OverflowError"
proof -
  have "(100::int) * 2 ^ 1024 \<le> 10 ^ 400" by simp
  from truediv_overflow [OF this] show ?thesis
    by (simp add: create_density_bar_def)
qed


section \<open>The display loops of app.py\<close>

lemma loop_body_Inr:
  assumes "loop_body boxes st = Inr st'"
  shows "frame_count st' = frame_count st + 1 \<and>
         (if frame_count st' mod 10 = 0
          then (case process_frame boxes of
                  (frame, n, status_text, css_class) \<Rightarrow>
                    shown_status st' = status_text \<and> shown_css st' = css_class \<and>
                    create_density_bar n = Inr (shown_density st'))
          else shown st' = shown st)"
  using assms
  by (auto simp add: loop_body_def Let_def shown_def split: prod.splits sum.splits if_splits)

lemma rendered_step:
  assumes "show_loop st frames = (rendered, e)" and "k < length rendered"
  shows "k < length frames \<and>
         loop_body (frames ! k) (if k = 0 then st else rendered ! (k - 1)) = Inr (rendered ! k)"
  using assms
proof (induction frames arbitrary: st rendered k e)
  case Nil
  then show ?case by simp
next
  case (Cons boxes rest)
  from Cons.prems obtain st' where body: "loop_body boxes st = Inr st'"
    by (cases "loop_body boxes st") auto
  obtain r e' where rest: "show_loop st' rest = (r, e')"
    by (cases "show_loop st' rest")
  with body Cons.prems(1) have rendered: "rendered = st' # r" by simp
  show ?case
  proof (cases k)
    case 0
    then show ?thesis using body rendered by simp
  next
    case (Suc k')
    with Cons.prems(2) rendered have k': "k' < length r" by simp
    from Cons.IH [OF rest k'] show ?thesis
      using Suc rendered by (cases k') simp_all
  qed
qed

lemma rendered_frame_count:
  assumes "show_loop st frames = (rendered, e)"
  shows "k < length rendered \<Longrightarrow> frame_count (rendered ! k) = frame_count st + int k + 1"
proof (induction k)
  case 0
  with rendered_step [OF assms, of 0] loop_body_Inr [of "frames ! 0" st "rendered ! 0"]
  show ?case by simp
next
  case (Suc k)
  then have k: "k < length rendered" by simp
  from rendered_step [OF assms Suc.prems]
  have "loop_body (frames ! Suc k) (rendered ! k) = Inr (rendered ! Suc k)" by simp
  from loop_body_Inr [OF this] Suc.IH [OF k] show ?case by simp
qed

lemma idx_eq:
  assumes "(Suc k + 1) mod 10 \<noteq> 0"
  shows "Suc k - (Suc k + 1) mod 10 = k - (k + 1) mod 10"
proof -
  have "Suc (k + 1) mod 10 = (if Suc ((k + 1) mod 10) = 10 then 0 else Suc ((k + 1) mod 10))"
    by (rule mod_Suc)
  with assms have "(Suc k + 1) mod 10 = Suc ((k + 1) mod 10)"
    by (simp split: if_splits)
  then show ?thesis by (simp only: diff_Suc_Suc)
qed

lemma idx_lt:
  assumes "(Suc k + 1) mod 10 \<noteq> 0"
  shows "Suc k + 1 < 10 \<longleftrightarrow> k + 1 < 10"
  using assms by (cases "k = 8") auto

lemma lag_index_refresh:
  assumes "(Suc k + 1) mod 10 = 0"
  shows "(if Suc k + 1 < 10 then a else f (Suc k - (Suc k + 1) mod 10)) = f (Suc k)"
proof -
  have a: "\<not> Suc k + 1 < 10" using assms by presburger
  have b: "Suc k - (Suc k + 1) mod 10 = Suc k" using assms by simp
  show ?thesis using a b by auto
qed

lemma lag_index_step:
  assumes "(Suc k + 1) mod 10 \<noteq> 0"
  shows "(if Suc k + 1 < 10 then a else f (Suc k - (Suc k + 1) mod 10)) =
         (if k + 1 < 10 then a else f (k - (k + 1) mod 10))"
  by (simp only: idx_eq [OF assms] idx_lt [OF assms])

lemma mod10_int: "(int n + 1) mod 10 = 0 \<longleftrightarrow> (n + 1) mod 10 = 0"
  by presburger

lemma rendered_lag:
  assumes "show_loop st frames = (rendered, e)" and "frame_count st = 0"
  shows "k < length rendered \<Longrightarrow>
         shown (rendered ! k) =
         (if k + 1 < 10 then shown st else shown (rendered ! (k - (k + 1) mod 10)))"
proof (induction k)
  case 0
  from rendered_step [OF assms(1) 0] have "loop_body (frames ! 0) st = Inr (rendered ! 0)"
    by simp
  from loop_body_Inr [OF this] show ?case using assms(2) by simp
next
  case (Suc k)
  then have k: "k < length rendered" by simp
  from rendered_step [OF assms(1) Suc.prems]
  have "loop_body (frames ! Suc k) (rendered ! k) = Inr (rendered ! Suc k)" by simp
  from loop_body_Inr [OF this]
  have imp: "frame_count (rendered ! Suc k) mod 10 \<noteq> 0 \<longrightarrow>
        shown (rendered ! Suc k) = shown (rendered ! k)"
    by (simp only: if_splits) blast
  have fc: "frame_count (rendered ! Suc k) = int (Suc k) + 1"
    using rendered_frame_count [OF assms(1) Suc.prems] assms(2) by simp
  have step: "(Suc k + 1) mod 10 \<noteq> 0 \<longrightarrow> shown (rendered ! Suc k) = shown (rendered ! k)"
  proof
    assume "(Suc k + 1) mod 10 \<noteq> 0"
    then have "(int (Suc k) + 1) mod 10 \<noteq> 0"
      unfolding mod10_int [of "Suc k"] .
    then have "frame_count (rendered ! Suc k) mod 10 \<noteq> 0"
      unfolding fc .
    with imp show "shown (rendered ! Suc k) = shown (rendered ! k)"
      by blast
  qed
  show ?case
  proof (cases "(Suc k + 1) mod 10 = 0")
    case True
    show ?thesis
      by (rule lag_index_refresh [OF True, symmetric])
  next
    case False
    with step have "shown (rendered ! Suc k) = shown (rendered ! k)" by blast
    also have "shown (rendered ! k) =
        (if k + 1 < 10 then shown st else shown (rendered ! (k - (k + 1) mod 10)))"
      by (rule Suc.IH [OF k])
    also have "\<dots> =
        (if Suc k + 1 < 10 then shown st else shown (rendered ! (Suc k - (Suc k + 1) mod 10)))"
      by (rule lag_index_step [OF False, symmetric])
    finally show ?thesis .
  qed
qed

lemma show_loop_completes:
  assumes "\<forall>boxes\<in>set frames. int (length boxes) < 100 * (2 ^ 1024 - 2 ^ 970)"
  shows "snd (show_loop st frames) = None \<and> length (fst (show_loop st frames)) = length frames"
  using assms
proof (induction frames arbitrary: st)
  case Nil
  then show ?case by simp
next
  case (Cons boxes rest)
  obtain frame n status_text css_class
    where pf: "process_frame boxes = (frame, n, status_text, css_class)"
    by (cases "process_frame boxes") auto
  from process_frame_status [OF pf] have n: "n = int (length boxes)" by simp
  with Cons.prems have "0 \<le> n" "n < 100 * (2 ^ 1024 - 2 ^ 970)" by simp_all
  from density_bar_value [OF this] obtain d where "create_density_bar n = Inr d" by blast
  with pf have "\<exists>st'. loop_body boxes st = Inr st'"
    by (cases "(frame_count st + 1) mod 10 = 0") (simp_all add: loop_body_def Let_def)
  then obtain st' where body: "loop_body boxes st = Inr st'" ..
  have "snd (show_loop st' rest) = None \<and> length (fst (show_loop st' rest)) = length rest"
    using Cons.IH [of st'] Cons.prems by simp
  then show ?case
    using body by (cases "show_loop st' rest") simp
qed

text \<open>
  C10. In the display loops of \<open>show_live\<close> and \<open>show_analysis\<close>, the frame with 1-based index
  \<open>k + 1\<close> refreshes the shown status, density bar and CSS class from its own results exactly
  when \<open>k + 1\<close> is a multiple of 10; on every other frame the three shown values are those of
  the frame before (the initial ones on the first frame). So what is shown at a frame is what the
  last multiple-of-10 frame computed, at most 9 frames earlier, and the initial values during
  the first 9 frames.
\<close>

theorem display_refresh_every_tenth_frame:
  assumes "show_loop ui_initial frames = (rendered, e)" and "k < length rendered"
  shows "frame_count (rendered ! k) = int k + 1 \<and>
         ((k + 1) mod 10 = 0 \<longrightarrow>
            (case process_frame (frames ! k) of
               (frame, n, status_text, css_class) \<Rightarrow>
                 shown_status (rendered ! k) = status_text \<and>
                 shown_css (rendered ! k) = css_class \<and>
                 create_density_bar n = Inr (shown_density (rendered ! k)))) \<and>
         ((k + 1) mod 10 \<noteq> 0 \<longrightarrow>
            shown (rendered ! k) = shown (if k = 0 then ui_initial else rendered ! (k - 1))) \<and>
         shown (rendered ! k) =
           (if k + 1 < 10 then shown ui_initial
            else shown (rendered ! (k - (k + 1) mod 10))) \<and>
         (k + 1) mod 10 \<le> 9"
proof -
  let ?prev = "if k = 0 then ui_initial else rendered ! (k - 1)"
  have init: "frame_count ui_initial = 0" by (simp add: ui_initial_def)
  have fc: "frame_count (rendered ! k) = int k + 1"
    using rendered_frame_count [OF assms] init by simp
  from rendered_step [OF assms] have "loop_body (frames ! k) ?prev = Inr (rendered ! k)"
    by simp
  note body = loop_body_Inr [OF this]
  have m: "frame_count (rendered ! k) mod 10 = 0 \<longleftrightarrow> (k + 1) mod 10 = 0"
    unfolding fc by (rule mod10_int)
  have refresh: "(k + 1) mod 10 = 0 \<longrightarrow>
      (case process_frame (frames ! k) of
         (frame, n, status_text, css_class) \<Rightarrow>
           shown_status (rendered ! k) = status_text \<and>
           shown_css (rendered ! k) = css_class \<and>
           create_density_bar n = Inr (shown_density (rendered ! k)))"
  proof
    assume h: "(k + 1) mod 10 = 0"
    have c: "frame_count (rendered ! k) mod 10 = 0" unfolding m by (rule h)
    from body show "case process_frame (frames ! k) of
         (frame, n, status_text, css_class) \<Rightarrow>
           shown_status (rendered ! k) = status_text \<and>
           shown_css (rendered ! k) = css_class \<and>
           create_density_bar n = Inr (shown_density (rendered ! k))"
      unfolding c by (simp only: if_True)
  qed
  have keep: "(k + 1) mod 10 \<noteq> 0 \<longrightarrow> shown (rendered ! k) = shown ?prev"
  proof
    assume h: "(k + 1) mod 10 \<noteq> 0"
    have c: "(frame_count (rendered ! k) mod 10 = 0) = False" unfolding m using h by simp
    from body show "shown (rendered ! k) = shown ?prev"
      unfolding c by (simp only: if_False)
  qed
  have lag: "shown (rendered ! k) =
      (if k + 1 < 10 then shown ui_initial else shown (rendered ! (k - (k + 1) mod 10)))"
    using rendered_lag [OF assms(1) init assms(2)] .
  have "(k + 1) mod 10 \<le> 9"
    using mod_less_divisor [of 10 "k + 1"] by simp
  with fc refresh keep lag show ?thesis by blast
qed

theorem display_refresh_every_tenth_frame_witness:
  "(10::nat) < length (fst (show_loop ui_initial (replicate 11 ([]::unit list)))) \<and>
   frame_count (fst (show_loop ui_initial (replicate 11 ([]::unit list))) ! 10) = 11 \<and>
   shown (fst (show_loop ui_initial (replicate 11 ([]::unit list))) ! 10) =
   shown (fst (show_loop ui_initial (replicate 11 ([]::unit list))) ! 9) \<and>
   shown_status (fst (show_loop ui_initial (replicate 11 ([]::unit list))) ! 9) = ''Normal''"
proof -
  define frames where "frames = replicate 11 ([]::unit list)"
  define rendered where "rendered = fst (show_loop ui_initial frames)"
  have h1: "show_loop ui_initial frames = (rendered, snd (show_loop ui_initial frames))"
    by (simp add: rendered_def)
  have "\<forall>boxes\<in>set frames. int (length boxes) < 100 * (2 ^ 1024 - 2 ^ 970)"
    by (simp add: frames_def)
  from show_loop_completes [OF this, of ui_initial] have "length rendered = length frames"
    by (simp only: rendered_def)
  then have len: "length rendered = 11" by (simp add: frames_def)
  have h10: "10 < length rendered" and h9: "9 < length rendered"
    by (simp_all only: len)
  have "frames ! 9 = []" by (simp add: frames_def)
  then have pf: "process_frame (frames ! 9) = ([], 0, ''Normal'', ''status-normal'')"
    by (simp add: process_frame_def)
  note t10 = display_refresh_every_tenth_frame [OF h1 h10]
  note t9 = display_refresh_every_tenth_frame [OF h1 h9]
  from t10 have "frame_count (rendered ! 10) = int 10 + 1" by (rule conjunct1)
  then have a: "frame_count (rendered ! 10) = 11" by simp
  from t10 [THEN conjunct2, THEN conjunct2, THEN conjunct1]
  have b: "shown (rendered ! 10) = shown (rendered ! 9)" by simp
  from t9 [THEN conjunct2, THEN conjunct1]
  have c: "shown_status (rendered ! 9) = ''Normal''"
    unfolding pf by simp
  from h10 a b c show ?thesis
    unfolding rendered_def frames_def by blast
qed

end
